theory Spec2Isabelle
  imports Main
begin

section \<open>The heap of list items\<close>

text \<open>
  The TypeScript classes \<open>LinkedListItem\<close> (src/linked_list_item.ts) and \<open>LinkedList\<close>
  hold references to mutable objects, and the claims depend on the aliasing, so the
  embedding uses an explicit store: a reference is a natural number, and the store maps
  references to item objects.

  The field \<open>unlinkCleanup\<close> of an item holds a function in the source. Two kinds of
  function occur: the arrow function \<open>LinkedList.unlinkCleanup\<close> that the list hands to
  every item it creates (\<open>ListCleanup\<close>), and a function supplied by a caller who builds
  items by hand (\<open>UserCleanup k\<close>, the k-th such function). The only effect modelled for
  a caller's function is that it has been called.
\<close>

type_synonym ref = nat

datatype cleanup = ListCleanup | UserCleanup nat

record 'a LinkedListItem =
  ivalue :: 'a
  behind :: "ref option"
  before :: "ref option"
  unlinkCleanup :: "cleanup option"

text \<open>
  The state is the store together with the fields of the one \<open>LinkedList\<close> object
  (\<open>head\<close>, \<open>tail\<close>, \<open>length\<close>). \<open>nextRef\<close> is the next unused reference, taken by
  \<open>new LinkedListItem\<close>. \<open>calls\<close> records every invocation of a cleanup function, in
  order, with the item it was called on; the source has no such field, it is the
  observation a test makes with a flag set inside the callback.
\<close>

record 'a state =
  items :: "ref \<Rightarrow> 'a LinkedListItem option"
  nextRef :: ref
  head :: "ref option"
  tail :: "ref option"
  length_l :: int
  calls :: "(cleanup \<times> ref) list"

definition empty_state :: "'a state" where
  "empty_state =
     \<lparr>items = (\<lambda>r. None), nextRef = 0, head = None, tail = None, length_l = 0, calls = []\<rparr>"

text \<open>
  Field reads and writes through a reference. A JavaScript reference always denotes an
  object; in the model a read through a reference outside the store gives \<open>None\<close>
  (undefined) and a write through it is dropped. The invariants below state that the
  references of a list are in the store.
\<close>

definition value_of :: "'a state \<Rightarrow> ref \<Rightarrow> 'a option" where
  "value_of s r = (case items s r of None \<Rightarrow> None | Some it \<Rightarrow> Some (ivalue it))"

definition behind_of :: "'a state \<Rightarrow> ref \<Rightarrow> ref option" where
  "behind_of s r = (case items s r of None \<Rightarrow> None | Some it \<Rightarrow> behind it)"

definition before_of :: "'a state \<Rightarrow> ref \<Rightarrow> ref option" where
  "before_of s r = (case items s r of None \<Rightarrow> None | Some it \<Rightarrow> before it)"

definition cleanup_of :: "'a state \<Rightarrow> ref \<Rightarrow> cleanup option" where
  "cleanup_of s r = (case items s r of None \<Rightarrow> None | Some it \<Rightarrow> unlinkCleanup it)"

definition upd_item :: "ref \<Rightarrow> ('a LinkedListItem \<Rightarrow> 'a LinkedListItem) \<Rightarrow> 'a state \<Rightarrow> 'a state" where
  "upd_item r f s =
     (case items s r of None \<Rightarrow> s | Some it \<Rightarrow> s\<lparr>items := (items s)(r := Some (f it))\<rparr>)"

definition set_behind :: "ref \<Rightarrow> ref option \<Rightarrow> 'a state \<Rightarrow> 'a state" where
  "set_behind r v s = upd_item r (\<lambda>it. it\<lparr>behind := v\<rparr>) s"

definition set_before :: "ref \<Rightarrow> ref option \<Rightarrow> 'a state \<Rightarrow> 'a state" where
  "set_before r v s = upd_item r (\<lambda>it. it\<lparr>before := v\<rparr>) s"

definition set_cleanup :: "ref \<Rightarrow> cleanup option \<Rightarrow> 'a state \<Rightarrow> 'a state" where
  "set_cleanup r v s = upd_item r (\<lambda>it. it\<lparr>unlinkCleanup := v\<rparr>) s"

text \<open>\<open>new LinkedListItem(value, unlinkCleanup)\<close>: a fresh object, both links undefined.\<close>

definition new_item :: "'a \<Rightarrow> cleanup option \<Rightarrow> 'a state \<Rightarrow> ref \<times> 'a state" where
  "new_item v c s =
     (nextRef s,
      s\<lparr>items := (items s)(nextRef s :=
            Some \<lparr>ivalue = v, behind = None, before = None, unlinkCleanup = c\<rparr>),
        nextRef := Suc (nextRef s)\<rparr>)"

section \<open>LinkedListItem\<close>

text \<open>
  \<open>insertBefore(before)\<close>, called on \<open>this\<close>: stores the predecessor and copies its
  cleanup function when \<open>this\<close> has none.
\<close>

definition insertBefore :: "ref \<Rightarrow> ref \<Rightarrow> 'a state \<Rightarrow> 'a state" where
  "insertBefore this b s =
     (let s1 = set_before this (Some b) s
      in if cleanup_of s1 this = None then set_cleanup this (cleanup_of s1 b) s1 else s1)"

text \<open>
  The loop \<open>while (itemChainEnd.behind) itemChainEnd = itemChainEnd.behind\<close> of
  \<open>insertBehind\<close>. It does not return on a cyclic chain: the result \<open>None\<close> stands for
  that.
\<close>

partial_function (option) chainEnd :: "'a state \<Rightarrow> ref \<Rightarrow> ref option" where
  "chainEnd s itemChainEnd =
     (case behind_of s itemChainEnd of
        None \<Rightarrow> Some itemChainEnd
      | Some b \<Rightarrow> chainEnd s b)"

declare chainEnd.simps [code]

text \<open>
  \<open>this.insertBehind(item)\<close>, with its recursive call \<open>itemChainEnd.insertBehind(this.behind)\<close>.
\<close>

partial_function (option) insertBehind :: "ref \<Rightarrow> ref \<Rightarrow> 'a state \<Rightarrow> 'a state option" where
  "insertBehind this item s =
     (let s1 = insertBefore item this s
      in case behind_of s1 this of
           None \<Rightarrow> Some (set_behind this (Some item) s1)
         | Some oldBehind \<Rightarrow>
             Option.bind (chainEnd s1 item) (\<lambda>itemChainEnd.
               Option.bind (insertBehind itemChainEnd oldBehind
                              (insertBefore oldBehind itemChainEnd s1)) (\<lambda>s3.
                 Some (set_behind this (Some item) s3))))"

declare insertBehind.simps [code]

text \<open>
  The arrow function \<open>LinkedList.unlinkCleanup\<close>: moves \<open>head\<close> and \<open>tail\<close> off the item
  and decrements \<open>length\<close>.
\<close>

definition list_unlinkCleanup :: "ref \<Rightarrow> 'a state \<Rightarrow> 'a state" where
  "list_unlinkCleanup item s =
     (let s1 = (if head s = Some item then s\<lparr>head := behind_of s item\<rparr> else s);
          s2 = (if tail s1 = Some item then s1\<lparr>tail := before_of s1 item\<rparr> else s1)
      in s2\<lparr>length_l := length_l s2 - 1\<rparr>)"

definition call_cleanup :: "cleanup \<Rightarrow> ref \<Rightarrow> 'a state \<Rightarrow> 'a state" where
  "call_cleanup c item s =
     (let s1 = s\<lparr>calls := calls s @ [(c, item)]\<rparr>
      in case c of ListCleanup \<Rightarrow> list_unlinkCleanup item s1 | UserCleanup k \<Rightarrow> s1)"

text \<open>\<open>this.unlink(unchain)\<close>, statement by statement.\<close>

definition unlink :: "ref \<Rightarrow> bool \<Rightarrow> 'a state \<Rightarrow> 'a state" where
  "unlink this unchain s =
     (let s1 = (case before_of s this of
                  None \<Rightarrow> s
                | Some b \<Rightarrow> set_behind b (behind_of s this) s);
          s2 = (case behind_of s1 this of
                  None \<Rightarrow> s1
                | Some n \<Rightarrow> set_before n (before_of s1 this) s1);
          s3 = (case cleanup_of s2 this of
                  None \<Rightarrow> s2
                | Some c \<Rightarrow> call_cleanup c this s2);
          s4 = set_cleanup this None s3
      in if unchain then set_before this None (set_behind this None s4) else s4)"

section \<open>LinkedList\<close>

text \<open>
  One round of the loop of \<open>push\<close>, and the loop over the values. The result \<open>None\<close>
  is a call that does not return (\<open>insertBehind\<close> on a cyclic chain).
\<close>

definition push1 :: "'a \<Rightarrow> 'a state \<Rightarrow> 'a state option" where
  "push1 v s =
     (case new_item v (Some ListCleanup) s of (item, s1) \<Rightarrow>
        Option.bind
          (case (head s1, tail s1) of
             (Some h, Some t) \<Rightarrow>
               Option.bind (insertBehind t item s1) (\<lambda>s2. Some (s2\<lparr>tail := Some item\<rparr>))
           | _ \<Rightarrow> Some (s1\<lparr>head := Some item, tail := Some item\<rparr>))
          (\<lambda>s3. Some (s3\<lparr>length_l := length_l s3 + 1\<rparr>)))"

fun push_loop :: "'a list \<Rightarrow> 'a state \<Rightarrow> 'a state option" where
  "push_loop [] s = Some s"
| "push_loop (v # vs) s = Option.bind (push1 v s) (push_loop vs)"

definition push :: "'a list \<Rightarrow> 'a state \<Rightarrow> (int \<times> 'a state) option" where
  "push vs s = Option.bind (push_loop vs s) (\<lambda>s'. Some (length_l s', s'))"

definition unshift1 :: "'a \<Rightarrow> 'a state \<Rightarrow> 'a state option" where
  "unshift1 v s =
     (case new_item v (Some ListCleanup) s of (item, s1) \<Rightarrow>
        Option.bind
          (case (tail s1, head s1) of
             (Some t, Some h) \<Rightarrow>
               Option.bind (insertBehind item h s1) (\<lambda>s2. Some (s2\<lparr>head := Some item\<rparr>))
           | _ \<Rightarrow> Some (s1\<lparr>head := Some item, tail := Some item\<rparr>))
          (\<lambda>s3. Some (s3\<lparr>length_l := length_l s3 + 1\<rparr>)))"

fun unshift_loop :: "'a list \<Rightarrow> 'a state \<Rightarrow> 'a state option" where
  "unshift_loop [] s = Some s"
| "unshift_loop (v # vs) s = Option.bind (unshift1 v s) (unshift_loop vs)"

definition unshift :: "'a list \<Rightarrow> 'a state \<Rightarrow> (int \<times> 'a state) option" where
  "unshift vs s = Option.bind (unshift_loop vs s) (\<lambda>s'. Some (length_l s', s'))"

text \<open>The constructor: an empty list, then \<open>push\<close> of each value of the sequence.\<close>

definition LinkedList :: "'a list \<Rightarrow> 'a state option" where
  "LinkedList vs = push_loop vs empty_state"

text \<open>\<open>pop\<close> and \<open>shift\<close> return the value of the removed item, or undefined.\<close>

definition pop :: "'a state \<Rightarrow> 'a option \<times> 'a state" where
  "pop s =
     (case tail s of
        None \<Rightarrow> (None, s)
      | Some item \<Rightarrow> (let s1 = unlink item False s in (value_of s1 item, s1)))"

definition shift :: "'a state \<Rightarrow> 'a option \<times> 'a state" where
  "shift s =
     (case head s of
        None \<Rightarrow> (None, s)
      | Some item \<Rightarrow> (let s1 = unlink item False s in (value_of s1 item, s1)))"

text \<open>
  \<open>remove\<close> and \<open>removeAllOccurrences\<close> run their body inside \<open>for (const item of this.keys())\<close>.
  The generator \<open>keys\<close> yields \<open>current\<close>, and reads \<open>current.behind\<close> only when it is
  resumed, that is after the body has run on the item: the loops below read \<open>behind\<close>
  in the state the body has left.
\<close>

partial_function (option) remove_loop :: "'a \<Rightarrow> ref \<Rightarrow> 'a state \<Rightarrow> (bool \<times> 'a state) option" where
  "remove_loop v current s =
     (if value_of s current = Some v then Some (True, unlink current False s)
      else case behind_of s current of
             None \<Rightarrow> Some (False, s)
           | Some n \<Rightarrow> remove_loop v n s)"

declare remove_loop.simps [code]

definition remove :: "'a \<Rightarrow> 'a state \<Rightarrow> (bool \<times> 'a state) option" where
  "remove v s = (case head s of None \<Rightarrow> Some (False, s) | Some h \<Rightarrow> remove_loop v h s)"

partial_function (option) removeAll_loop ::
    "'a \<Rightarrow> ref \<Rightarrow> bool \<Rightarrow> 'a state \<Rightarrow> (bool \<times> 'a state) option" where
  "removeAll_loop v current foundSomethingToDelete s =
     (if value_of s current = Some v
      then (let s1 = unlink current False s
            in case behind_of s1 current of
                 None \<Rightarrow> Some (True, s1)
               | Some n \<Rightarrow> removeAll_loop v n True s1)
      else (case behind_of s current of
              None \<Rightarrow> Some (foundSomethingToDelete, s)
            | Some n \<Rightarrow> removeAll_loop v n foundSomethingToDelete s))"

declare removeAll_loop.simps [code]

definition removeAllOccurrences :: "'a \<Rightarrow> 'a state \<Rightarrow> (bool \<times> 'a state) option" where
  "removeAllOccurrences v s =
     (case head s of None \<Rightarrow> Some (False, s) | Some h \<Rightarrow> removeAll_loop v h False s)"

text \<open>\<open>clear(unchain)\<close>: the loop \<open>while (this.head) this.head.unlink(true)\<close>, then the reset.\<close>

partial_function (option) clear_loop :: "'a state \<Rightarrow> 'a state option" where
  "clear_loop s = (case head s of None \<Rightarrow> Some s | Some h \<Rightarrow> clear_loop (unlink h True s))"

declare clear_loop.simps [code]

definition clear :: "bool \<Rightarrow> 'a state \<Rightarrow> 'a state option" where
  "clear unchain s =
     Option.bind (if unchain then clear_loop s else Some s)
       (\<lambda>s1. Some (s1\<lparr>head := None, tail := None, length_l := 0\<rparr>))"

text \<open>
  \<open>getItemByIndex(index)\<close>. The index is an integer. For a positive index the loop
  \<open>while (current && index--)\<close> tests the old value of the counter and then decrements
  it; for a negative index the loop \<open>while (current && ++index)\<close> increments the counter
  and tests the new value. Both counters move towards zero by one in each round, so the
  loops are recursions on the natural number of rounds left.
\<close>

fun walk_behind :: "'a state \<Rightarrow> ref option \<Rightarrow> nat \<Rightarrow> ref option" where
  "walk_behind s None index = None"
| "walk_behind s (Some c) 0 = Some c"
| "walk_behind s (Some c) (Suc index) = walk_behind s (behind_of s c) index"

fun walk_before :: "'a state \<Rightarrow> ref option \<Rightarrow> nat \<Rightarrow> ref option" where
  "walk_before s None k = None"
| "walk_before s (Some c) 0 = Some c"
| "walk_before s (Some c) (Suc k) = walk_before s (before_of s c) k"

definition getItemByIndex :: "int \<Rightarrow> 'a state \<Rightarrow> ref option" where
  "getItemByIndex index s =
     (case head s of
        None \<Rightarrow> None
      | Some h \<Rightarrow>
          if index > 0 then walk_behind s (head s) (nat index)
          else if index < 0 then walk_before s (tail s) (nat (- index) - 1)
          else head s)"

section \<open>reduce and reduceRight\<close>

text \<open>
  \<open>reduce\<close> tests its optional argument twice, once for falsiness (\<open>!initialValue\<close>) and
  once against \<open>undefined\<close>, so the values of this part are JavaScript values with
  their truthiness. Numbers are modelled as integers (\<open>NaN\<close> and fractions are left
  out); a missing argument is \<open>JUndefined\<close>, as in the language.
\<close>

datatype jsval = JUndefined | JNull | JBool bool | JNum int | JStr string

fun truthy :: "jsval \<Rightarrow> bool" where
  "truthy JUndefined = False"
| "truthy JNull = False"
| "truthy (JBool b) = b"
| "truthy (JNum n) = (n \<noteq> 0)"
| "truthy (JStr x) = (x \<noteq> [])"

datatype error = TypeError string

definition js_value :: "jsval state \<Rightarrow> ref \<Rightarrow> jsval" where
  "js_value s r = (case value_of s r of None \<Rightarrow> JUndefined | Some v \<Rightarrow> v)"

text \<open>
  The callback is a function of the accumulator, the current value and the current
  item. The loops return the accumulator together with the number of times the callback
  has been called.
\<close>

partial_function (option) reduce_loop ::
    "(jsval \<Rightarrow> jsval \<Rightarrow> ref \<Rightarrow> jsval) \<Rightarrow> jsval \<Rightarrow> nat \<Rightarrow> ref \<Rightarrow> jsval state \<Rightarrow> (jsval \<times> nat) option" where
  "reduce_loop callback initialValue n current s =
     (let acc = callback initialValue (js_value s current) current
      in case behind_of s current of
           None \<Rightarrow> Some (acc, Suc n)
         | Some c \<Rightarrow> reduce_loop callback acc (Suc n) c s)"

declare reduce_loop.simps [code]

definition reduce ::
    "(jsval \<Rightarrow> jsval \<Rightarrow> ref \<Rightarrow> jsval) \<Rightarrow> jsval \<Rightarrow> jsval state \<Rightarrow> (error + jsval \<times> nat) option" where
  "reduce callback initialValue s =
     (case head s of
        None \<Rightarrow>
          if \<not> truthy initialValue
          then Some (Inl (TypeError ''Empty accumulator on empty LinkedList is not allowed.''))
          else Some (Inr (initialValue, 0))
      | Some current \<Rightarrow>
          if initialValue = JUndefined
          then (case behind_of s current of
                  None \<Rightarrow> Some (Inr (js_value s current, 0))
                | Some c \<Rightarrow> map_option Inr (reduce_loop callback (js_value s current) 0 c s))
          else map_option Inr (reduce_loop callback initialValue 0 current s))"

partial_function (option) reduceRight_loop ::
    "(jsval \<Rightarrow> jsval \<Rightarrow> ref \<Rightarrow> jsval) \<Rightarrow> jsval \<Rightarrow> nat \<Rightarrow> ref \<Rightarrow> jsval state \<Rightarrow> (jsval \<times> nat) option" where
  "reduceRight_loop callback initialValue n current s =
     (let acc = callback initialValue (js_value s current) current
      in case before_of s current of
           None \<Rightarrow> Some (acc, Suc n)
         | Some c \<Rightarrow> reduceRight_loop callback acc (Suc n) c s)"

declare reduceRight_loop.simps [code]

definition reduceRight ::
    "(jsval \<Rightarrow> jsval \<Rightarrow> ref \<Rightarrow> jsval) \<Rightarrow> jsval \<Rightarrow> jsval state \<Rightarrow> (error + jsval \<times> nat) option" where
  "reduceRight callback initialValue s =
     (case tail s of
        None \<Rightarrow>
          if \<not> truthy initialValue
          then Some (Inl (TypeError ''Empty accumulator on empty LinkedList is not allowed.''))
          else Some (Inr (initialValue, 0))
      | Some current \<Rightarrow>
          if initialValue = JUndefined
          then (case before_of s current of
                  None \<Rightarrow> Some (Inr (js_value s current, 0))
                | Some c \<Rightarrow> map_option Inr (reduceRight_loop callback (js_value s current) 0 c s))
          else map_option Inr (reduceRight_loop callback initialValue 0 current s))"

section \<open>Predicates of the verification\<close>

text \<open>
  The definitions of this section are not part of the program: they are the vocabulary
  of the statements and proofs below. \<open>alloc s r\<close>: the reference \<open>r\<close> denotes an
  object of the store.
\<close>

definition alloc :: "'a state \<Rightarrow> ref \<Rightarrow> bool" where
  "alloc s r = (items s r \<noteq> None)"

text \<open>
  The five statements of \<open>unlink\<close>, one function each; \<open>unlink_steps\<close> below shows
  that \<open>unlink\<close> is their composition.
\<close>

definition relink_prev :: "ref \<Rightarrow> 'a state \<Rightarrow> 'a state" where
  "relink_prev n s = (case before_of s n of None \<Rightarrow> s | Some b \<Rightarrow> set_behind b (behind_of s n) s)"

definition relink_next :: "ref \<Rightarrow> 'a state \<Rightarrow> 'a state" where
  "relink_next n s = (case behind_of s n of None \<Rightarrow> s | Some a \<Rightarrow> set_before a (before_of s n) s)"

definition run_cleanup :: "ref \<Rightarrow> 'a state \<Rightarrow> 'a state" where
  "run_cleanup n s = (case cleanup_of s n of None \<Rightarrow> s | Some c \<Rightarrow> call_cleanup c n s)"

definition detach :: "bool \<Rightarrow> ref \<Rightarrow> 'a state \<Rightarrow> 'a state" where
  "detach u n s = (if u then set_before n None (set_behind n None s) else s)"

text \<open>
  \<open>dll s p ns n\<close>: the items \<open>ns\<close> are objects of the store and form a doubly linked
  segment. The first has \<open>before = p\<close>, the last has \<open>behind = n\<close>, and each item's
  \<open>behind\<close> is the next item of \<open>ns\<close>, whose \<open>before\<close> is that item. \<open>hd_or ns n\<close> is
  the first item of \<open>ns\<close>, or \<open>n\<close> when there is none; \<open>last_or ns p\<close> the last, or \<open>p\<close>.
\<close>

fun hd_or :: "ref list \<Rightarrow> ref option \<Rightarrow> ref option" where
  "hd_or [] n = n"
| "hd_or (y # ys) n = Some y"

fun last_or :: "ref list \<Rightarrow> ref option \<Rightarrow> ref option" where
  "last_or [] p = p"
| "last_or (x # xs) p = last_or xs (Some x)"

fun dll :: "'a state \<Rightarrow> ref option \<Rightarrow> ref list \<Rightarrow> ref option \<Rightarrow> bool" where
  "dll s p [] n = True"
| "dll s p (x # xs) n =
     (alloc s x \<and> before_of s x = p \<and> behind_of s x = hd_or xs n \<and> dll s (Some x) xs n)"

text \<open>
  \<open>wf_list s ns\<close>: the list object of the state \<open>s\<close> consists of exactly the items
  \<open>ns\<close>, from head to tail. They are distinct, doubly linked with nothing before the
  first and nothing behind the last, each carries the list's cleanup function and was
  allocated earlier (\<open>owned\<close>), and \<open>head\<close>, \<open>tail\<close> and \<open>length\<close> are the first item,
  the last item and the number of items.
\<close>

definition owned :: "'a state \<Rightarrow> ref \<Rightarrow> bool" where
  "owned s r = (cleanup_of s r = Some ListCleanup \<and> r < nextRef s)"

definition wf_list :: "'a state \<Rightarrow> ref list \<Rightarrow> bool" where
  "wf_list s ns =
     (distinct ns \<and> dll s None ns None \<and> list_all (owned s) ns \<and>
      head s = hd_or ns None \<and> tail s = last_or ns None \<and> length_l s = int (length ns))"

text \<open>
  Frame conditions: no value has changed; the objects outside \<open>ns\<close> have not changed.
\<close>

definition same_values :: "'a state \<Rightarrow> 'a state \<Rightarrow> bool" where
  "same_values s' s = (\<forall>r. value_of s' r = value_of s r)"

definition same_outside :: "ref list \<Rightarrow> 'a state \<Rightarrow> 'a state \<Rightarrow> bool" where
  "same_outside ns s' s =
     (\<forall>r. r \<notin> set ns \<longrightarrow>
        before_of s' r = before_of s r \<and> behind_of s' r = behind_of s r \<and>
        cleanup_of s' r = cleanup_of s r \<and> alloc s' r = alloc s r)"

text \<open>
  \<open>llist s ns vs\<close>: the list consists of the items \<open>ns\<close>, and they hold the values
  \<open>vs\<close>, in this order. \<open>del1 P xs\<close> removes the first element of \<open>xs\<close> that satisfies
  \<open>P\<close>.
\<close>

definition llist :: "'a state \<Rightarrow> ref list \<Rightarrow> 'a list \<Rightarrow> bool" where
  "llist s ns vs = (wf_list s ns \<and> map (value_of s) ns = map Some vs)"

fun del1 :: "('r \<Rightarrow> bool) \<Rightarrow> 'r list \<Rightarrow> 'r list" where
  "del1 P [] = []"
| "del1 P (x # xs) = (if P x then xs else x # del1 P xs)"

text \<open>
  The invariant of the list object as the specification states it: \<open>length\<close> is 0
  exactly when head and tail are both absent; it is 1 exactly when head and tail are
  the same item; and when it is greater than 1, head and tail are two different items,
  \<open>length - 1\<close> steps along \<open>behind\<close> lead from the head to the tail, and \<open>length - 1\<close>
  steps along \<open>before\<close> lead from the tail to the head.
\<close>

definition aggregate_inv :: "'a state \<Rightarrow> bool" where
  "aggregate_inv s =
     (((length_l s = 0) = (head s = None \<and> tail s = None)) \<and>
      ((length_l s = 1) = (head s \<noteq> None \<and> head s = tail s)) \<and>
      (length_l s > 1 \<longrightarrow>
         head s \<noteq> None \<and> tail s \<noteq> None \<and> head s \<noteq> tail s \<and>
         walk_behind s (head s) (nat (length_l s - 1)) = tail s \<and>
         walk_before s (tail s) (nat (length_l s - 1)) = head s))"

text \<open>
  The states that the public operations of \<open>LinkedList\<close> produce: the constructor on a
  sequence of values, then any sequence of \<open>push\<close>, \<open>unshift\<close>, \<open>pop\<close>, \<open>shift\<close>,
  \<open>remove\<close>, \<open>removeAllOccurrences\<close> and \<open>clear\<close> calls that return.
\<close>

inductive reachable :: "'a state \<Rightarrow> bool" where
  by_constructor: "LinkedList vs = Some s \<Longrightarrow> reachable s"
| by_push: "reachable s \<Longrightarrow> push vs s = Some (n, s') \<Longrightarrow> reachable s'"
| by_unshift: "reachable s \<Longrightarrow> unshift vs s = Some (n, s') \<Longrightarrow> reachable s'"
| by_pop: "reachable s \<Longrightarrow> pop s = (r, s') \<Longrightarrow> reachable s'"
| by_shift: "reachable s \<Longrightarrow> shift s = (r, s') \<Longrightarrow> reachable s'"
| by_remove: "reachable s \<Longrightarrow> remove v s = Some (b, s') \<Longrightarrow> reachable s'"
| by_removeAllOccurrences:
    "reachable s \<Longrightarrow> removeAllOccurrences v s = Some (b, s') \<Longrightarrow> reachable s'"
| by_clear: "reachable s \<Longrightarrow> clear unchain s = Some s' \<Longrightarrow> reachable s'"

text \<open>
  Example states. \<open>list_1\<close>, \<open>list_12\<close> and \<open>list_123\<close> are the states after
  \<open>new LinkedList([1])\<close>, \<open>[1, 2]\<close> and \<open>[1, 2, 3]\<close> (\<open>LinkedList_12\<close> and
  \<open>LinkedList_123\<close> below); \<open>list_12_again\<close> is \<open>list_12\<close> after the head has been
  given its own successor once more, \<open>head.insertBehind(head.behind)\<close>;
  \<open>list_3\<close>, \<open>list_34\<close>, \<open>list_345\<close> and \<open>list_3453\<close> lead to the list
  \<open>[3, 4, 5, 3]\<close> of the tests of \<open>remove\<close> (\<open>LinkedList_3453\<close> below);
  \<open>chains_123_456\<close> holds the two hand-built chains \<open>1, 2, 3\<close> and \<open>4, 5, 6\<close> of the
  item test named Adds multiple in a row, with no cleanup functions.
\<close>

definition list_1 :: "int state" where
  "list_1 =
     \<lparr>items = [0 \<mapsto> \<lparr>ivalue = 1, behind = None, before = None, unlinkCleanup = Some ListCleanup\<rparr>],
      nextRef = 1, head = Some 0, tail = Some 0, length_l = 1, calls = []\<rparr>"

definition list_12 :: "int state" where
  "list_12 =
     \<lparr>items = [0 \<mapsto> \<lparr>ivalue = 1, behind = Some 1, before = None, unlinkCleanup = Some ListCleanup\<rparr>,
               1 \<mapsto> \<lparr>ivalue = 2, behind = None, before = Some 0, unlinkCleanup = Some ListCleanup\<rparr>],
      nextRef = 2, head = Some 0, tail = Some 1, length_l = 2, calls = []\<rparr>"

definition list_12_again :: "int state" where
  "list_12_again =
     \<lparr>items = [0 \<mapsto> \<lparr>ivalue = 1, behind = Some 1, before = None, unlinkCleanup = Some ListCleanup\<rparr>,
               1 \<mapsto> \<lparr>ivalue = 2, behind = Some 1, before = Some 1, unlinkCleanup = Some ListCleanup\<rparr>],
      nextRef = 2, head = Some 0, tail = Some 1, length_l = 2, calls = []\<rparr>"

definition list_123 :: "int state" where
  "list_123 =
     \<lparr>items = [0 \<mapsto> \<lparr>ivalue = 1, behind = Some 1, before = None, unlinkCleanup = Some ListCleanup\<rparr>,
               1 \<mapsto> \<lparr>ivalue = 2, behind = Some 2, before = Some 0, unlinkCleanup = Some ListCleanup\<rparr>,
               2 \<mapsto> \<lparr>ivalue = 3, behind = None, before = Some 1, unlinkCleanup = Some ListCleanup\<rparr>],
      nextRef = 3, head = Some 0, tail = Some 2, length_l = 3, calls = []\<rparr>"

definition list_3 :: "int state" where
  "list_3 =
     \<lparr>items = [0 \<mapsto> \<lparr>ivalue = 3, behind = None, before = None, unlinkCleanup = Some ListCleanup\<rparr>],
      nextRef = 1, head = Some 0, tail = Some 0, length_l = 1, calls = []\<rparr>"

definition list_34 :: "int state" where
  "list_34 =
     \<lparr>items = [0 \<mapsto> \<lparr>ivalue = 3, behind = Some 1, before = None, unlinkCleanup = Some ListCleanup\<rparr>,
               1 \<mapsto> \<lparr>ivalue = 4, behind = None, before = Some 0, unlinkCleanup = Some ListCleanup\<rparr>],
      nextRef = 2, head = Some 0, tail = Some 1, length_l = 2, calls = []\<rparr>"

definition list_345 :: "int state" where
  "list_345 =
     \<lparr>items = [0 \<mapsto> \<lparr>ivalue = 3, behind = Some 1, before = None, unlinkCleanup = Some ListCleanup\<rparr>,
               1 \<mapsto> \<lparr>ivalue = 4, behind = Some 2, before = Some 0, unlinkCleanup = Some ListCleanup\<rparr>,
               2 \<mapsto> \<lparr>ivalue = 5, behind = None, before = Some 1, unlinkCleanup = Some ListCleanup\<rparr>],
      nextRef = 3, head = Some 0, tail = Some 2, length_l = 3, calls = []\<rparr>"

definition list_3453 :: "int state" where
  "list_3453 =
     \<lparr>items = [0 \<mapsto> \<lparr>ivalue = 3, behind = Some 1, before = None, unlinkCleanup = Some ListCleanup\<rparr>,
               1 \<mapsto> \<lparr>ivalue = 4, behind = Some 2, before = Some 0, unlinkCleanup = Some ListCleanup\<rparr>,
               2 \<mapsto> \<lparr>ivalue = 5, behind = Some 3, before = Some 1, unlinkCleanup = Some ListCleanup\<rparr>,
               3 \<mapsto> \<lparr>ivalue = 3, behind = None, before = Some 2, unlinkCleanup = Some ListCleanup\<rparr>],
      nextRef = 4, head = Some 0, tail = Some 3, length_l = 4, calls = []\<rparr>"

definition chains_123_456 :: "int state" where
  "chains_123_456 =
     \<lparr>items = [0 \<mapsto> \<lparr>ivalue = 1, behind = Some 1, before = None, unlinkCleanup = None\<rparr>,
               1 \<mapsto> \<lparr>ivalue = 2, behind = Some 2, before = Some 0, unlinkCleanup = None\<rparr>,
               2 \<mapsto> \<lparr>ivalue = 3, behind = None, before = Some 1, unlinkCleanup = None\<rparr>,
               3 \<mapsto> \<lparr>ivalue = 4, behind = Some 4, before = None, unlinkCleanup = None\<rparr>,
               4 \<mapsto> \<lparr>ivalue = 5, behind = Some 5, before = Some 3, unlinkCleanup = None\<rparr>,
               5 \<mapsto> \<lparr>ivalue = 6, behind = None, before = Some 4, unlinkCleanup = None\<rparr>],
      nextRef = 6, head = None, tail = None, length_l = 0, calls = []\<rparr>"

section \<open>The store and the item operations\<close>

lemmas heap_defs = value_of_def behind_of_def before_of_def cleanup_of_def upd_item_def
  set_behind_def set_before_def set_cleanup_def alloc_def

lemma set_behind_simps [simp]:
  "behind_of (set_behind r v s) r' = (if r' = r \<and> alloc s r then v else behind_of s r')"
  "before_of (set_behind r v s) r' = before_of s r'"
  "cleanup_of (set_behind r v s) r' = cleanup_of s r'"
  "value_of (set_behind r v s) r' = value_of s r'"
  "alloc (set_behind r v s) r' = alloc s r'"
  "head (set_behind r v s) = head s"
  "tail (set_behind r v s) = tail s"
  "length_l (set_behind r v s) = length_l s"
  "calls (set_behind r v s) = calls s"
  "nextRef (set_behind r v s) = nextRef s"
  by (simp_all add: heap_defs split: option.splits)

lemma set_before_simps [simp]:
  "before_of (set_before r v s) r' = (if r' = r \<and> alloc s r then v else before_of s r')"
  "behind_of (set_before r v s) r' = behind_of s r'"
  "cleanup_of (set_before r v s) r' = cleanup_of s r'"
  "value_of (set_before r v s) r' = value_of s r'"
  "alloc (set_before r v s) r' = alloc s r'"
  "head (set_before r v s) = head s"
  "tail (set_before r v s) = tail s"
  "length_l (set_before r v s) = length_l s"
  "calls (set_before r v s) = calls s"
  "nextRef (set_before r v s) = nextRef s"
  by (simp_all add: heap_defs split: option.splits)

lemma set_cleanup_simps [simp]:
  "cleanup_of (set_cleanup r v s) r' = (if r' = r \<and> alloc s r then v else cleanup_of s r')"
  "behind_of (set_cleanup r v s) r' = behind_of s r'"
  "before_of (set_cleanup r v s) r' = before_of s r'"
  "value_of (set_cleanup r v s) r' = value_of s r'"
  "alloc (set_cleanup r v s) r' = alloc s r'"
  "head (set_cleanup r v s) = head s"
  "tail (set_cleanup r v s) = tail s"
  "length_l (set_cleanup r v s) = length_l s"
  "calls (set_cleanup r v s) = calls s"
  "nextRef (set_cleanup r v s) = nextRef s"
  by (simp_all add: heap_defs split: option.splits)

lemma not_alloc_simps:
  "\<not> alloc s r \<Longrightarrow> behind_of s r = None"
  "\<not> alloc s r \<Longrightarrow> before_of s r = None"
  "\<not> alloc s r \<Longrightarrow> cleanup_of s r = None"
  "\<not> alloc s r \<Longrightarrow> value_of s r = None"
  by (simp_all add: heap_defs)

lemma field_upd_simps [simp]:
  "behind_of (s\<lparr>head := h\<rparr>) = behind_of s" "before_of (s\<lparr>head := h\<rparr>) = before_of s"
  "cleanup_of (s\<lparr>head := h\<rparr>) = cleanup_of s" "value_of (s\<lparr>head := h\<rparr>) = value_of s"
  "alloc (s\<lparr>head := h\<rparr>) = alloc s"
  "behind_of (s\<lparr>tail := t\<rparr>) = behind_of s" "before_of (s\<lparr>tail := t\<rparr>) = before_of s"
  "cleanup_of (s\<lparr>tail := t\<rparr>) = cleanup_of s" "value_of (s\<lparr>tail := t\<rparr>) = value_of s"
  "alloc (s\<lparr>tail := t\<rparr>) = alloc s"
  "behind_of (s\<lparr>length_l := n\<rparr>) = behind_of s" "before_of (s\<lparr>length_l := n\<rparr>) = before_of s"
  "cleanup_of (s\<lparr>length_l := n\<rparr>) = cleanup_of s" "value_of (s\<lparr>length_l := n\<rparr>) = value_of s"
  "alloc (s\<lparr>length_l := n\<rparr>) = alloc s"
  "behind_of (s\<lparr>calls := c\<rparr>) = behind_of s" "before_of (s\<lparr>calls := c\<rparr>) = before_of s"
  "cleanup_of (s\<lparr>calls := c\<rparr>) = cleanup_of s" "value_of (s\<lparr>calls := c\<rparr>) = value_of s"
  "alloc (s\<lparr>calls := c\<rparr>) = alloc s"
  by (simp_all add: heap_defs fun_eq_iff)

lemma call_cleanup_simps [simp]:
  "behind_of (call_cleanup c r s) = behind_of s"
  "before_of (call_cleanup c r s) = before_of s"
  "cleanup_of (call_cleanup c r s) = cleanup_of s"
  "value_of (call_cleanup c r s) = value_of s"
  "alloc (call_cleanup c r s) = alloc s"
  "nextRef (call_cleanup c r s) = nextRef s"
  "calls (call_cleanup c r s) = calls s @ [(c, r)]"
  by (cases c; simp add: call_cleanup_def list_unlinkCleanup_def Let_def)+

lemma call_cleanup_list [simp]:
  "length_l (call_cleanup ListCleanup r s) = length_l s - 1"
  "head (call_cleanup ListCleanup r s) = (if head s = Some r then behind_of s r else head s)"
  "tail (call_cleanup ListCleanup r s) = (if tail s = Some r then before_of s r else tail s)"
  by (simp_all add: call_cleanup_def list_unlinkCleanup_def Let_def)

lemma call_cleanup_user [simp]:
  "length_l (call_cleanup (UserCleanup k) r s) = length_l s"
  "head (call_cleanup (UserCleanup k) r s) = head s"
  "tail (call_cleanup (UserCleanup k) r s) = tail s"
  by (simp_all add: call_cleanup_def)

lemma cleanup_alloc: "cleanup_of s n = Some c \<Longrightarrow> alloc s n"
  by (simp add: heap_defs split: option.splits)
lemma behind_alloc: "behind_of s n = Some c \<Longrightarrow> alloc s n"
  by (simp add: heap_defs split: option.splits)
lemma before_alloc: "before_of s n = Some c \<Longrightarrow> alloc s n"
  by (simp add: heap_defs split: option.splits)

lemma unlink_steps:
  "unlink n u s = detach u n (set_cleanup n None (run_cleanup n (relink_next n (relink_prev n s))))"
  unfolding unlink_def Let_def relink_prev_def relink_next_def run_cleanup_def detach_def
  by (rule refl)

lemma relink_prev_simps [simp]:
  "behind_of (relink_prev n s) r =
     (if before_of s n = Some r \<and> alloc s r then behind_of s n else behind_of s r)"
  "before_of (relink_prev n s) = before_of s"
  "cleanup_of (relink_prev n s) = cleanup_of s"
  "value_of (relink_prev n s) = value_of s"
  "alloc (relink_prev n s) = alloc s"
  "head (relink_prev n s) = head s"
  "tail (relink_prev n s) = tail s"
  "length_l (relink_prev n s) = length_l s"
  "calls (relink_prev n s) = calls s"
  "nextRef (relink_prev n s) = nextRef s"
  by (cases "before_of s n"; simp add: relink_prev_def fun_eq_iff)+

lemma relink_next_simps [simp]:
  "before_of (relink_next n s) r =
     (if behind_of s n = Some r \<and> alloc s r then before_of s n else before_of s r)"
  "behind_of (relink_next n s) = behind_of s"
  "cleanup_of (relink_next n s) = cleanup_of s"
  "value_of (relink_next n s) = value_of s"
  "alloc (relink_next n s) = alloc s"
  "head (relink_next n s) = head s"
  "tail (relink_next n s) = tail s"
  "length_l (relink_next n s) = length_l s"
  "calls (relink_next n s) = calls s"
  "nextRef (relink_next n s) = nextRef s"
  by (cases "behind_of s n"; simp add: relink_next_def fun_eq_iff)+

lemma run_cleanup_simps [simp]:
  "behind_of (run_cleanup n s) = behind_of s"
  "before_of (run_cleanup n s) = before_of s"
  "cleanup_of (run_cleanup n s) = cleanup_of s"
  "value_of (run_cleanup n s) = value_of s"
  "alloc (run_cleanup n s) = alloc s"
  "nextRef (run_cleanup n s) = nextRef s"
  "calls (run_cleanup n s) = calls s @ (case cleanup_of s n of None \<Rightarrow> [] | Some c \<Rightarrow> [(c, n)])"
  "length_l (run_cleanup n s) = (if cleanup_of s n = Some ListCleanup then length_l s - 1 else length_l s)"
  "head (run_cleanup n s) =
     (if cleanup_of s n = Some ListCleanup \<and> head s = Some n then behind_of s n else head s)"
  "tail (run_cleanup n s) =
     (if cleanup_of s n = Some ListCleanup \<and> tail s = Some n then before_of s n else tail s)"
proof -
  show "behind_of (run_cleanup n s) = behind_of s" "before_of (run_cleanup n s) = before_of s"
    "cleanup_of (run_cleanup n s) = cleanup_of s" "value_of (run_cleanup n s) = value_of s"
    "alloc (run_cleanup n s) = alloc s" "nextRef (run_cleanup n s) = nextRef s"
    "calls (run_cleanup n s) = calls s @ (case cleanup_of s n of None \<Rightarrow> [] | Some c \<Rightarrow> [(c, n)])"
    by (cases "cleanup_of s n"; simp add: run_cleanup_def)+
  have "length_l (run_cleanup n s) = (if cleanup_of s n = Some ListCleanup then length_l s - 1 else length_l s) \<and>
    head (run_cleanup n s) =
     (if cleanup_of s n = Some ListCleanup \<and> head s = Some n then behind_of s n else head s) \<and>
    tail (run_cleanup n s) =
     (if cleanup_of s n = Some ListCleanup \<and> tail s = Some n then before_of s n else tail s)"
  proof (cases "cleanup_of s n")
    case None
    then show ?thesis by (simp add: run_cleanup_def)
  next
    case (Some c)
    then show ?thesis by (cases c) (simp_all add: run_cleanup_def)
  qed
  then show "length_l (run_cleanup n s) = (if cleanup_of s n = Some ListCleanup then length_l s - 1 else length_l s)"
    "head (run_cleanup n s) =
     (if cleanup_of s n = Some ListCleanup \<and> head s = Some n then behind_of s n else head s)"
    "tail (run_cleanup n s) =
     (if cleanup_of s n = Some ListCleanup \<and> tail s = Some n then before_of s n else tail s)"
    by blast+
qed

lemma detach_simps [simp]:
  "behind_of (detach u n s) r = (if u \<and> r = n then None else behind_of s r)"
  "before_of (detach u n s) r = (if u \<and> r = n then None else before_of s r)"
  "cleanup_of (detach u n s) r = cleanup_of s r"
  "value_of (detach u n s) r = value_of s r"
  "alloc (detach u n s) r = alloc s r"
  "head (detach u n s) = head s"
  "tail (detach u n s) = tail s"
  "length_l (detach u n s) = length_l s"
  "calls (detach u n s) = calls s"
  "nextRef (detach u n s) = nextRef s"
proof -
  have na: "\<not> alloc s n \<Longrightarrow> behind_of s n = None \<and> before_of s n = None"
    by (simp add: not_alloc_simps)
  show "behind_of (detach u n s) r = (if u \<and> r = n then None else behind_of s r)"
    "before_of (detach u n s) r = (if u \<and> r = n then None else before_of s r)"
    using na by (cases "alloc s n"; simp add: detach_def)+
  show "cleanup_of (detach u n s) r = cleanup_of s r"
  "value_of (detach u n s) r = value_of s r"
  "alloc (detach u n s) r = alloc s r"
  "head (detach u n s) = head s"
  "tail (detach u n s) = tail s"
  "length_l (detach u n s) = length_l s"
  "calls (detach u n s) = calls s"
  "nextRef (detach u n s) = nextRef s"
    by (simp_all add: detach_def)
qed

lemma unlink_simps:
  "behind_of (unlink n u s) r =
     (if u \<and> r = n then None
      else if before_of s n = Some r \<and> alloc s r then behind_of s n else behind_of s r)"
  "before_of (unlink n u s) r =
     (if u \<and> r = n then None
      else if behind_of s n = Some r \<and> alloc s r then before_of s n else before_of s r)"
  "cleanup_of (unlink n u s) r = (if r = n then None else cleanup_of s r)"
  "value_of (unlink n u s) r = value_of s r"
  "alloc (unlink n u s) r = alloc s r"
  "nextRef (unlink n u s) = nextRef s"
  "calls (unlink n u s) = calls s @ (case cleanup_of s n of None \<Rightarrow> [] | Some c \<Rightarrow> [(c, n)])"
  "length_l (unlink n u s) = (if cleanup_of s n = Some ListCleanup then length_l s - 1 else length_l s)"
  "head (unlink n u s) =
     (if cleanup_of s n = Some ListCleanup \<and> head s = Some n then behind_of s n else head s)"
  "tail (unlink n u s) =
     (if cleanup_of s n = Some ListCleanup \<and> tail s = Some n then before_of s n else tail s)"
proof -
  have na: "\<not> alloc s n \<Longrightarrow> cleanup_of s n = None"
    by (simp add: not_alloc_simps)
  show "cleanup_of (unlink n u s) r = (if r = n then None else cleanup_of s r)"
    using na by (cases "alloc s n"; simp add: unlink_steps)
  show "behind_of (unlink n u s) r =
     (if u \<and> r = n then None
      else if before_of s n = Some r \<and> alloc s r then behind_of s n else behind_of s r)"
  "before_of (unlink n u s) r =
     (if u \<and> r = n then None
      else if behind_of s n = Some r \<and> alloc s r then before_of s n else before_of s r)"
  "value_of (unlink n u s) r = value_of s r"
  "alloc (unlink n u s) r = alloc s r"
  "nextRef (unlink n u s) = nextRef s"
  "calls (unlink n u s) = calls s @ (case cleanup_of s n of None \<Rightarrow> [] | Some c \<Rightarrow> [(c, n)])"
  "length_l (unlink n u s) = (if cleanup_of s n = Some ListCleanup then length_l s - 1 else length_l s)"
  "head (unlink n u s) =
     (if cleanup_of s n = Some ListCleanup \<and> head s = Some n then behind_of s n else head s)"
  "tail (unlink n u s) =
     (if cleanup_of s n = Some ListCleanup \<and> tail s = Some n then before_of s n else tail s)"
    by (simp_all add: unlink_steps)
qed

lemma insertBefore_simps:
  "before_of (insertBefore t b s) r = (if r = t \<and> alloc s t then Some b else before_of s r)"
  "behind_of (insertBefore t b s) r = behind_of s r"
  "cleanup_of (insertBefore t b s) r =
     (if r = t \<and> alloc s t \<and> cleanup_of s t = None then cleanup_of s b else cleanup_of s r)"
  "value_of (insertBefore t b s) r = value_of s r"
  "alloc (insertBefore t b s) r = alloc s r"
  "head (insertBefore t b s) = head s"
  "tail (insertBefore t b s) = tail s"
  "length_l (insertBefore t b s) = length_l s"
  "calls (insertBefore t b s) = calls s"
  "nextRef (insertBefore t b s) = nextRef s"
  by (simp_all add: insertBefore_def Let_def)

lemma new_item_simps:
  "fst (new_item v c s) = nextRef s"
  "before_of (snd (new_item v c s)) r = (if r = nextRef s then None else before_of s r)"
  "behind_of (snd (new_item v c s)) r = (if r = nextRef s then None else behind_of s r)"
  "cleanup_of (snd (new_item v c s)) r = (if r = nextRef s then c else cleanup_of s r)"
  "value_of (snd (new_item v c s)) r = (if r = nextRef s then Some v else value_of s r)"
  "alloc (snd (new_item v c s)) r = (r = nextRef s \<or> alloc s r)"
  "head (snd (new_item v c s)) = head s"
  "tail (snd (new_item v c s)) = tail s"
  "length_l (snd (new_item v c s)) = length_l s"
  "calls (snd (new_item v c s)) = calls s"
  "nextRef (snd (new_item v c s)) = Suc (nextRef s)"
  by (simp_all add: new_item_def heap_defs)

lemma insertBehind_end:
  "behind_of s this = None \<Longrightarrow>
   insertBehind this item s = Some (set_behind this (Some item) (insertBefore item this s))"
  by (subst insertBehind.simps) (simp add: Let_def insertBefore_simps)

lemma hd_or_append: "hd_or (xs @ ys) n = hd_or xs (hd_or ys n)"
  by (cases xs) simp_all

lemma last_or_append: "last_or (xs @ ys) p = last_or ys (last_or xs p)"
  by (induction xs arbitrary: p) simp_all

lemma last_or_eq: "last_or xs p = (if xs = [] then p else Some (last xs))"
  by (induction xs arbitrary: p) simp_all

lemma hd_or_eq: "hd_or xs n = (if xs = [] then n else Some (hd xs))"
  by (cases xs) simp_all

lemma dll_append:
  "dll s p (xs @ ys) n = (dll s p xs (hd_or ys n) \<and> dll s (last_or xs p) ys n)"
  by (induction xs arbitrary: p) (auto simp: hd_or_append)

lemma dll_frame:
  "\<forall>r\<in>set ns. alloc s' r = alloc s r \<and> before_of s' r = before_of s r \<and> behind_of s' r = behind_of s r
   \<Longrightarrow> dll s' p ns n = dll s p ns n"
  by (induction ns arbitrary: p) auto

lemma dll_change_next:
  "dll s p xs n \<Longrightarrow> distinct xs \<Longrightarrow>
   \<forall>r\<in>set xs. alloc s' r = alloc s r \<and> before_of s' r = before_of s r \<and>
      behind_of s' r = (if Some r = last_or xs None then n' else behind_of s r)
   \<Longrightarrow> dll s' p xs n'"
proof (induction xs arbitrary: p)
  case Nil
  then show ?case by simp
next
  case (Cons x xs)
  show ?case
  proof (cases xs)
    case Nil
    with Cons.prems show ?thesis by simp
  next
    case (Cons y ys)
    have lo: "last_or (x # xs) None = last_or xs None"
      using Cons by (simp add: last_or_eq)
    have "x \<noteq> last xs" using Cons.prems(2) Cons by auto
    then have xl: "Some x \<noteq> last_or xs None" using Cons by (simp add: last_or_eq)
    have "dll s' (Some x) xs n'"
      using Cons.prems lo by (intro Cons.IH) auto
    then show ?thesis using Cons.prems Cons xl lo by auto
  qed
qed

lemma dll_change_prev:
  "dll s p ys n \<Longrightarrow> distinct ys \<Longrightarrow>
   \<forall>r\<in>set ys. alloc s' r = alloc s r \<and> behind_of s' r = behind_of s r \<and>
      before_of s' r = (if Some r = hd_or ys None then p' else before_of s r)
   \<Longrightarrow> dll s' p' ys n"
proof (cases ys)
  case Nil
  then show ?thesis by simp
next
  case (Cons y zs)
  assume a: "dll s p ys n" "distinct ys"
    "\<forall>r\<in>set ys. alloc s' r = alloc s r \<and> behind_of s' r = behind_of s r \<and>
      before_of s' r = (if Some r = hd_or ys None then p' else before_of s r)"
  have "dll s' (Some y) zs n = dll s (Some y) zs n"
    using a Cons by (intro dll_frame) auto
  then show ?thesis using a Cons by auto
qed

lemma dll_alloc: "dll s p ns n \<Longrightarrow> r \<in> set ns \<Longrightarrow> alloc s r"
  by (induction ns arbitrary: p) auto

lemma last_or_mem: "last_or xs None = Some r \<Longrightarrow> r \<in> set xs"
  by (cases "xs = []") (auto simp: last_or_eq)

lemma hd_or_mem: "hd_or xs None = Some r \<Longrightarrow> r \<in> set xs"
  by (cases xs) auto

lemma wf_list_unlink:
  assumes wf: "wf_list s (xs @ x # ys)"
  shows "wf_list (unlink x u s) (xs @ ys)"
proof -
  let ?s = "unlink x u s"
  from wf have dist: "distinct (xs @ x # ys)"
    and d: "dll s None (xs @ x # ys) None"
    and own: "list_all (owned s) (xs @ x # ys)"
    and hd: "head s = hd_or (xs @ x # ys) None"
    and tl: "tail s = last_or (xs @ x # ys) None"
    and len: "length_l s = int (length (xs @ x # ys))"
    by (simp_all add: wf_list_def)
  from d have dx: "dll s None xs (Some x)" and ax: "alloc s x"
    and bx: "before_of s x = last_or xs None" and nx: "behind_of s x = hd_or ys None"
    and dy: "dll s (Some x) ys None"
    by (simp_all add: dll_append)
  from own have cx: "cleanup_of s x = Some ListCleanup" by (simp add: owned_def)
  have x_xs: "x \<notin> set xs" and x_ys: "x \<notin> set ys" and xs_ys: "set xs \<inter> set ys = {}"
    using dist by auto
  have lxs: "last_or xs None \<noteq> Some r" if "r \<in> set ys" for r
    using that xs_ys last_or_mem [of xs r] by auto
  have hys: "hd_or ys None \<noteq> Some r" if "r \<in> set xs" for r
    using that xs_ys hd_or_mem [of ys r] by auto
  have d1: "dll ?s None xs (hd_or ys None)"
  proof (rule dll_change_next [OF dx])
    show "distinct xs" using dist by simp
    show "\<forall>r\<in>set xs. alloc ?s r = alloc s r \<and> before_of ?s r = before_of s r \<and>
          behind_of ?s r = (if Some r = last_or xs None then hd_or ys None else behind_of s r)"
      using x_xs hys dll_alloc [OF dx] by (auto simp: unlink_simps bx nx)
  qed
  have d2: "dll ?s (last_or xs None) ys None"
  proof (rule dll_change_prev [OF dy])
    show "distinct ys" using dist by simp
    show "\<forall>r\<in>set ys. alloc ?s r = alloc s r \<and> behind_of ?s r = behind_of s r \<and>
          before_of ?s r = (if Some r = hd_or ys None then last_or xs None else before_of s r)"
      using x_ys lxs dll_alloc [OF dy] by (auto simp: unlink_simps bx nx)
  qed
  have d': "dll ?s None (xs @ ys) None"
    using d1 d2 by (simp add: dll_append)
  have own': "list_all (owned ?s) (xs @ ys)"
    using own x_xs x_ys by (auto simp: list_all_iff owned_def unlink_simps)
  have hd': "head ?s = hd_or (xs @ ys) None"
    using hd x_xs by (cases xs) (auto simp: unlink_simps cx nx hd_or_append)
  have tl': "tail ?s = last_or (xs @ ys) None"
    using tl x_ys by (cases ys rule: rev_cases) (auto simp: unlink_simps cx bx last_or_append last_or_eq)
  have len': "length_l ?s = int (length (xs @ ys))"
    using len by (simp add: unlink_simps cx)
  show ?thesis
    using dist d' own' hd' tl' len' by (simp add: wf_list_def)
qed

lemma unlink_same_values: "same_values (unlink x u s) s"
  by (simp add: same_values_def unlink_simps)

lemma unlink_same_outside:
  assumes wf: "wf_list s (xs @ x # ys)"
  shows "same_outside (xs @ x # ys) (unlink x u s) s"
proof -
  from wf have d: "dll s None (xs @ x # ys) None" by (simp add: wf_list_def)
  then have bx: "before_of s x = last_or xs None" and nx: "behind_of s x = hd_or ys None"
    by (simp_all add: dll_append)
  show ?thesis
    using last_or_mem [of xs] hd_or_mem [of ys]
    by (auto simp: same_outside_def unlink_simps bx nx)
qed

lemma wf_list_last_behind:
  "wf_list s ns \<Longrightarrow> tail s = Some t \<Longrightarrow> behind_of s t = None \<and> alloc s t \<and> owned s t \<and> ns \<noteq> [] \<and> t = last ns"
proof -
  assume wf: "wf_list s ns" and t: "tail s = Some t"
  then have ne: "ns \<noteq> []" and tl: "t = last ns" by (auto simp: wf_list_def last_or_eq split: if_splits)
  then obtain xs where ns: "ns = xs @ [t]" by (metis append_butlast_last_id)
  from wf have "dll s None (xs @ [t]) None" and "list_all (owned s) (xs @ [t])"
    by (simp_all add: wf_list_def ns)
  then show ?thesis using ne tl by (simp add: dll_append)
qed

lemma wf_list_head_before:
  "wf_list s ns \<Longrightarrow> head s = Some h \<Longrightarrow> before_of s h = None \<and> alloc s h \<and> owned s h \<and> ns \<noteq> [] \<and> h = hd ns"
  by (cases ns) (auto simp: wf_list_def)

lemma wf_list_empty_iff:
  "wf_list s ns \<Longrightarrow> (head s = None) = (ns = []) \<and> (tail s = None) = (ns = [])"
  by (auto simp: wf_list_def last_or_eq hd_or_eq)

lemma wf_list_fresh: "wf_list s ns \<Longrightarrow> nextRef s \<notin> set ns"
  by (auto simp: wf_list_def list_all_iff owned_def)

lemma push1_wf:
  assumes wf: "wf_list s ns"
  shows "\<exists>s'. push1 v s = Some s' \<and> wf_list s' (ns @ [nextRef s]) \<and>
           (\<forall>r. value_of s' r = (if r = nextRef s then Some v else value_of s r)) \<and>
           nextRef s' = Suc (nextRef s) \<and> calls s' = calls s \<and> same_outside (ns @ [nextRef s]) s' s"
proof (cases ns rule: rev_cases)
  case Nil
  then have h: "head s = None" using wf by (simp add: wf_list_def)
  let ?s = "(snd (new_item v (Some ListCleanup) s))\<lparr>head := Some (nextRef s), tail := Some (nextRef s)\<rparr>"
  let ?s' = "?s\<lparr>length_l := length_l ?s + 1\<rparr>"
  have p: "push1 v s = Some ?s'"
    by (simp add: push1_def split_beta new_item_simps h)
  have l: "length_l s = 0" using wf Nil by (simp add: wf_list_def)
  have "wf_list ?s' [nextRef s]"
    by (simp add: wf_list_def owned_def new_item_simps l)
  moreover have "same_outside [nextRef s] ?s' s"
    by (simp add: same_outside_def new_item_simps)
  ultimately show ?thesis using p Nil by (simp add: new_item_simps)
next
  case (snoc xs t)
  let ?i = "nextRef s"
  let ?s1 = "snd (new_item v (Some ListCleanup) s)"
  from wf snoc have tl: "tail s = Some t" by (simp add: wf_list_def last_or_append)
  from wf_list_last_behind [OF wf tl] have bt: "behind_of s t = None" and at: "alloc s t"
    and ot: "owned s t" by blast+
  from wf snoc obtain h where hd: "head s = Some h" by (cases xs) (auto simp: wf_list_def)
  have ti: "t \<noteq> ?i" using ot by (auto simp: owned_def)
  let ?s2 = "set_behind t (Some ?i) (insertBefore ?i t ?s1)"
  let ?s3 = "?s2\<lparr>tail := Some ?i\<rparr>"
  define s' where "s' = ?s3\<lparr>length_l := length_l ?s3 + 1\<rparr>"
  have ib: "insertBehind t ?i ?s1 = Some ?s2"
    by (rule insertBehind_end) (simp add: new_item_simps ti bt)
  have p: "push1 v s = Some s'"
    by (simp add: s'_def push1_def split_beta new_item_simps hd tl ib)
  have al: "\<And>r. alloc s' r = (r = ?i \<or> alloc s r)"
    by (simp add: s'_def insertBefore_simps new_item_simps)
  have bf: "\<And>r. before_of s' r = (if r = ?i then Some t else before_of s r)"
    by (simp add: s'_def insertBefore_simps new_item_simps)
  have bh: "\<And>r. behind_of s' r = (if r = t then Some ?i else if r = ?i then None else behind_of s r)"
    using at ti by (simp add: s'_def insertBefore_simps new_item_simps)
  have cl: "\<And>r. cleanup_of s' r = (if r = ?i then Some ListCleanup else cleanup_of s r)"
    by (simp add: s'_def insertBefore_simps new_item_simps)
  have vl: "\<And>r. value_of s' r = (if r = ?i then Some v else value_of s r)"
    by (simp add: s'_def insertBefore_simps new_item_simps)
  have nr: "nextRef s' = Suc ?i" by (simp add: s'_def insertBefore_simps new_item_simps)
  have hd': "head s' = head s" by (simp add: s'_def insertBefore_simps new_item_simps)
  have tl': "tail s' = Some ?i" by (simp add: s'_def)
  have ln': "length_l s' = length_l s + 1" by (simp add: s'_def insertBefore_simps new_item_simps)
  have cs': "calls s' = calls s" by (simp add: s'_def insertBefore_simps new_item_simps)
  from wf have d: "dll s None ns None" and dist: "distinct ns" and own: "list_all (owned s) ns"
    by (simp_all add: wf_list_def)
  have fresh: "?i \<notin> set ns" using wf by (rule wf_list_fresh)
  have lo: "last_or ns None = Some t" using snoc by (simp add: last_or_append)
  have d1: "dll s' None ns (Some ?i)"
  proof (rule dll_change_next [OF d dist])
    show "\<forall>r\<in>set ns. alloc s' r = alloc s r \<and> before_of s' r = before_of s r \<and>
        behind_of s' r = (if Some r = last_or ns None then Some ?i else behind_of s r)"
      using fresh dll_alloc [OF d] unfolding al bf bh lo by auto
  qed
  have d2: "dll s' None (ns @ [?i]) None"
    using d1 lo ti ti [symmetric] unfolding dll_append by (simp add: al bf bh)
  have own': "list_all (owned s') (ns @ [?i])"
    using own fresh by (auto simp: list_all_iff owned_def cl nr)
  have "wf_list s' (ns @ [?i])"
  proof -
    have "ns \<noteq> []" using snoc by simp
    then have "hd_or (ns @ [?i]) None = hd_or ns None" by (cases ns) simp_all
    then show ?thesis
      using dist fresh d2 own' wf
      by (simp add: wf_list_def hd' tl' ln' last_or_append)
  qed
  moreover have "same_outside (ns @ [?i]) s' s"
    using snoc by (simp add: same_outside_def al bf bh cl)
  ultimately show ?thesis using p vl nr cs' by blast
qed

section \<open>Example lists\<close>

lemma upd_item_eval:
  "upd_item r f \<lparr>items = m, nextRef = n, head = h, tail = t, length_l = l, calls = c\<rparr> =
     (case m r of None \<Rightarrow> \<lparr>items = m, nextRef = n, head = h, tail = t, length_l = l, calls = c\<rparr>
      | Some it \<Rightarrow> \<lparr>items = m(r \<mapsto> f it), nextRef = n, head = h, tail = t, length_l = l, calls = c\<rparr>)"
  by (simp add: upd_item_def split: option.split)

lemmas eval_defs = insertBefore_def Let_def set_behind_def set_before_def set_cleanup_def
  upd_item_eval cleanup_of_def behind_of_def before_of_def value_of_def alloc_def

lemma push1_list_1: "push1 1 empty_state = Some list_1"
  by (simp add: push1_def new_item_def empty_state_def list_1_def)

lemma push1_list_12: "push1 2 list_1 = Some list_12"
  unfolding list_1_def
  apply (simp add: push1_def new_item_def)
  apply (subst insertBehind_end)
   apply (simp add: behind_of_def)
  apply (simp add: list_12_def eval_defs fun_eq_iff)
  done

lemma push1_list_123: "push1 3 list_12 = Some list_123"
  unfolding list_12_def
  apply (simp add: push1_def new_item_def)
  apply (subst insertBehind_end)
   apply (simp add: behind_of_def)
  apply (simp add: list_123_def eval_defs fun_eq_iff)
  done

lemma LinkedList_12: "LinkedList [1, 2] = Some list_12"
  by (simp add: LinkedList_def push1_list_1 push1_list_12)

lemma LinkedList_123: "LinkedList [1, 2, 3] = Some list_123"
  by (simp add: LinkedList_def push1_list_1 push1_list_12 push1_list_123)

lemma push1_list_3: "push1 3 empty_state = Some list_3"
  by (simp add: push1_def new_item_def empty_state_def list_3_def)

lemma push1_list_34: "push1 4 list_3 = Some list_34"
  unfolding list_3_def
  apply (simp add: push1_def new_item_def)
  apply (subst insertBehind_end)
   apply (simp add: behind_of_def)
  apply (simp add: list_34_def eval_defs fun_eq_iff)
  done

lemma push1_list_345: "push1 5 list_34 = Some list_345"
  unfolding list_34_def
  apply (simp add: push1_def new_item_def)
  apply (subst insertBehind_end)
   apply (simp add: behind_of_def)
  apply (simp add: list_345_def eval_defs fun_eq_iff)
  done

lemma push1_list_3453: "push1 3 list_345 = Some list_3453"
  unfolding list_345_def
  apply (simp add: push1_def new_item_def)
  apply (subst insertBehind_end)
   apply (simp add: behind_of_def)
  apply (simp add: list_3453_def eval_defs fun_eq_iff)
  done

lemma LinkedList_3453: "LinkedList [3, 4, 5, 3] = Some list_3453"
  by (simp add: LinkedList_def push1_list_3 push1_list_34 push1_list_345 push1_list_3453)

lemmas list_eval = llist_def wf_list_def owned_def alloc_def behind_of_def before_of_def
  cleanup_of_def value_of_def

lemma llist_list_123: "llist list_123 [0, 1, 2] [1, 2, 3]"
  by (simp add: list_eval list_123_def)

lemma llist_list_3453: "llist list_3453 [0, 1, 2, 3] [3, 4, 5, 3]"
  by (simp add: list_eval list_3453_def)

section \<open>The list operations on well-formed lists\<close>

lemma llist_push1:
  assumes "llist s ns ws"
  shows "\<exists>s'. push1 v s = Some s' \<and> llist s' (ns @ [nextRef s]) (ws @ [v]) \<and>
           nextRef s' = Suc (nextRef s) \<and> calls s' = calls s"
proof -
  from assms have wf: "wf_list s ns" and vals: "map (value_of s) ns = map Some ws"
    by (simp_all add: llist_def)
  from push1_wf [OF wf, of v] obtain s' where p: "push1 v s = Some s'"
    and wf': "wf_list s' (ns @ [nextRef s])"
    and v': "\<forall>r. value_of s' r = (if r = nextRef s then Some v else value_of s r)"
    and n': "nextRef s' = Suc (nextRef s)" and c': "calls s' = calls s"
    by blast
  have "nextRef s \<notin> set ns" using wf by (rule wf_list_fresh)
  then have "map (value_of s') ns = map (value_of s) ns"
    using v' by (intro map_cong) auto
  then have "llist s' (ns @ [nextRef s]) (ws @ [v])"
    using wf' vals v' by (simp add: llist_def)
  then show ?thesis using p n' c' by blast
qed

lemma llist_push_loop:
  "llist s ns ws \<Longrightarrow>
   \<exists>s'. push_loop vs s = Some s' \<and>
        llist s' (ns @ [nextRef s ..< nextRef s + length vs]) (ws @ vs) \<and>
        nextRef s' = nextRef s + length vs \<and> calls s' = calls s"
proof (induction vs arbitrary: s ns ws)
  case Nil
  then show ?case by simp
next
  case (Cons v vs)
  from llist_push1 [OF Cons.prems, of v] obtain s1 where p: "push1 v s = Some s1"
    and l1: "llist s1 (ns @ [nextRef s]) (ws @ [v])"
    and n1: "nextRef s1 = Suc (nextRef s)" and c1: "calls s1 = calls s"
    by blast
  from Cons.IH [OF l1] obtain s' where pl: "push_loop vs s1 = Some s'"
    and l': "llist s' ((ns @ [nextRef s]) @ [nextRef s1 ..< nextRef s1 + length vs]) ((ws @ [v]) @ vs)"
    and n': "nextRef s' = nextRef s1 + length vs" and c': "calls s' = calls s1"
    by blast
  have "[nextRef s ..< nextRef s + length (v # vs)] = nextRef s # [Suc (nextRef s) ..< Suc (nextRef s) + length vs]"
    by (simp add: upt_rec)
  then show ?case using p pl l' n' c' n1 c1 by simp
qed

lemma llist_empty_state: "llist empty_state [] []"
  by (simp add: llist_def wf_list_def empty_state_def)

lemma llist_LinkedList:
  "\<exists>s. LinkedList vs = Some s \<and> llist s [0 ..< length vs] vs \<and> nextRef s = length vs \<and> calls s = []"
  using llist_push_loop [OF llist_empty_state, of vs]
  by (simp add: LinkedList_def empty_state_def)

lemma llist_push:
  assumes "llist s ns ws"
  shows "\<exists>s'. push vs s = Some (int (length ws + length vs), s') \<and>
        llist s' (ns @ [nextRef s ..< nextRef s + length vs]) (ws @ vs)"
proof -
  from llist_push_loop [OF assms, of vs] obtain s' where pl: "push_loop vs s = Some s'"
    and l': "llist s' (ns @ [nextRef s ..< nextRef s + length vs]) (ws @ vs)"
    by blast
  from l' have "length_l s' = int (length (ns @ [nextRef s ..< nextRef s + length vs]))"
    by (simp add: llist_def wf_list_def)
  moreover from assms have "length ns = length ws"
    unfolding llist_def by (metis length_map)
  ultimately have "length_l s' = int (length ws + length vs)" by simp
  then show ?thesis using pl l' by (simp add: push_def)
qed

lemma unshift1_wf:
  assumes wf: "wf_list s ns"
  shows "\<exists>s'. unshift1 v s = Some s' \<and> wf_list s' (nextRef s # ns) \<and>
           (\<forall>r. value_of s' r = (if r = nextRef s then Some v else value_of s r)) \<and>
           nextRef s' = Suc (nextRef s) \<and> calls s' = calls s"
proof (cases ns)
  case Nil
  then have h: "head s = None" "tail s = None" using wf by (simp_all add: wf_list_def)
  let ?s = "(snd (new_item v (Some ListCleanup) s))\<lparr>head := Some (nextRef s), tail := Some (nextRef s)\<rparr>"
  let ?s' = "?s\<lparr>length_l := length_l ?s + 1\<rparr>"
  have p: "unshift1 v s = Some ?s'"
    by (simp add: unshift1_def split_beta new_item_simps h)
  have l: "length_l s = 0" using wf Nil by (simp add: wf_list_def)
  have "wf_list ?s' [nextRef s]"
    by (simp add: wf_list_def owned_def new_item_simps l)
  then show ?thesis using p Nil by (simp add: new_item_simps)
next
  case (Cons h xs)
  let ?i = "nextRef s"
  let ?s1 = "snd (new_item v (Some ListCleanup) s)"
  from wf Cons have hd: "head s = Some h" by (simp add: wf_list_def)
  from wf_list_head_before [OF wf hd] have bh0: "before_of s h = None" and ah: "alloc s h"
    and oh: "owned s h" by blast+
  from wf Cons obtain t where tl: "tail s = Some t" by (auto simp: wf_list_def last_or_eq)
  have hi: "h \<noteq> ?i" using oh by (auto simp: owned_def)
  have ch: "cleanup_of s h = Some ListCleanup" using oh by (simp add: owned_def)
  let ?s2 = "set_behind ?i (Some h) (insertBefore h ?i ?s1)"
  let ?s3 = "?s2\<lparr>head := Some ?i\<rparr>"
  define s' where "s' = ?s3\<lparr>length_l := length_l ?s3 + 1\<rparr>"
  have ib: "insertBehind ?i h ?s1 = Some ?s2"
    by (rule insertBehind_end) (simp add: new_item_simps)
  have p: "unshift1 v s = Some s'"
    by (simp add: s'_def unshift1_def split_beta new_item_simps hd tl ib)
  have al: "\<And>r. alloc s' r = (r = ?i \<or> alloc s r)"
    by (simp add: s'_def insertBefore_simps new_item_simps)
  have bf: "\<And>r. before_of s' r = (if r = h then Some ?i else if r = ?i then None else before_of s r)"
    using ah hi by (simp add: s'_def insertBefore_simps new_item_simps)
  have bh: "\<And>r. behind_of s' r = (if r = ?i then Some h else behind_of s r)"
    by (simp add: s'_def insertBefore_simps new_item_simps)
  have cl: "\<And>r. cleanup_of s' r = (if r = ?i then Some ListCleanup else cleanup_of s r)"
    using ch hi by (simp add: s'_def insertBefore_simps new_item_simps)
  have vl: "\<And>r. value_of s' r = (if r = ?i then Some v else value_of s r)"
    by (simp add: s'_def insertBefore_simps new_item_simps)
  have nr: "nextRef s' = Suc ?i" by (simp add: s'_def insertBefore_simps new_item_simps)
  have hd': "head s' = Some ?i" by (simp add: s'_def)
  have tl': "tail s' = tail s" by (simp add: s'_def insertBefore_simps new_item_simps)
  have ln': "length_l s' = length_l s + 1" by (simp add: s'_def insertBefore_simps new_item_simps)
  have cs': "calls s' = calls s" by (simp add: s'_def insertBefore_simps new_item_simps)
  from wf have d: "dll s None ns None" and dist: "distinct ns" and own: "list_all (owned s) ns"
    by (simp_all add: wf_list_def)
  have fresh: "?i \<notin> set ns" using wf by (rule wf_list_fresh)
  have ho: "hd_or ns None = Some h" using Cons by simp
  have d1: "dll s' (Some ?i) ns None"
  proof (rule dll_change_prev [OF d dist])
    show "\<forall>r\<in>set ns. alloc s' r = alloc s r \<and> behind_of s' r = behind_of s r \<and>
        before_of s' r = (if Some r = hd_or ns None then Some ?i else before_of s r)"
      using fresh dll_alloc [OF d] unfolding al bf bh ho by auto
  qed
  have d2: "dll s' None (?i # ns) None"
    using d1 ho hi hi [symmetric] by (simp add: al bf bh)
  have own': "list_all (owned s') (?i # ns)"
    using own fresh by (auto simp: list_all_iff owned_def cl nr)
  have "wf_list s' (?i # ns)"
  proof -
    have "ns \<noteq> []" using Cons by simp
    then have "last_or (?i # ns) None = last_or ns None" by (simp add: last_or_eq)
    then show ?thesis
      using dist fresh d2 own' wf
      by (simp add: wf_list_def hd' tl' ln' del: last_or.simps)
  qed
  then show ?thesis using p vl nr cs' by blast
qed

lemma llist_unshift1:
  assumes "llist s ns ws"
  shows "\<exists>s'. unshift1 v s = Some s' \<and> llist s' (nextRef s # ns) (v # ws) \<and>
           nextRef s' = Suc (nextRef s) \<and> calls s' = calls s"
proof -
  from assms have wf: "wf_list s ns" and vals: "map (value_of s) ns = map Some ws"
    by (simp_all add: llist_def)
  from unshift1_wf [OF wf, of v] obtain s' where p: "unshift1 v s = Some s'"
    and wf': "wf_list s' (nextRef s # ns)"
    and v': "\<forall>r. value_of s' r = (if r = nextRef s then Some v else value_of s r)"
    and n': "nextRef s' = Suc (nextRef s)" and c': "calls s' = calls s"
    by blast
  have "nextRef s \<notin> set ns" using wf by (rule wf_list_fresh)
  then have "map (value_of s') ns = map (value_of s) ns"
    using v' by (intro map_cong) auto
  then have "llist s' (nextRef s # ns) (v # ws)"
    using wf' vals v' by (simp add: llist_def)
  then show ?thesis using p n' c' by blast
qed

lemma llist_unshift_loop:
  "llist s ns ws \<Longrightarrow>
   \<exists>s'. unshift_loop vs s = Some s' \<and>
        llist s' (rev [nextRef s ..< nextRef s + length vs] @ ns) (rev vs @ ws) \<and>
        nextRef s' = nextRef s + length vs \<and> calls s' = calls s"
proof (induction vs arbitrary: s ns ws)
  case Nil
  then show ?case by simp
next
  case (Cons v vs)
  from llist_unshift1 [OF Cons.prems, of v] obtain s1 where p: "unshift1 v s = Some s1"
    and l1: "llist s1 (nextRef s # ns) (v # ws)"
    and n1: "nextRef s1 = Suc (nextRef s)" and c1: "calls s1 = calls s"
    by blast
  from Cons.IH [OF l1] obtain s' where pl: "unshift_loop vs s1 = Some s'"
    and l': "llist s' (rev [nextRef s1 ..< nextRef s1 + length vs] @ nextRef s # ns) (rev vs @ v # ws)"
    and n': "nextRef s' = nextRef s1 + length vs" and c': "calls s' = calls s1"
    by blast
  have "[nextRef s ..< nextRef s + length (v # vs)] = nextRef s # [Suc (nextRef s) ..< Suc (nextRef s) + length vs]"
    by (simp add: upt_rec)
  then show ?case using p pl l' n' c' n1 c1 by simp
qed

lemma llist_length: "llist s ns ws \<Longrightarrow> length ns = length ws \<and> length_l s = int (length ws)"
  unfolding llist_def wf_list_def by (metis length_map)

lemma llist_unshift:
  assumes "llist s ns ws"
  shows "\<exists>s'. unshift vs s = Some (int (length ws + length vs), s') \<and>
        llist s' (rev [nextRef s ..< nextRef s + length vs] @ ns) (rev vs @ ws)"
proof -
  from llist_unshift_loop [OF assms, of vs] obtain s' where pl: "unshift_loop vs s = Some s'"
    and l': "llist s' (rev [nextRef s ..< nextRef s + length vs] @ ns) (rev vs @ ws)"
    by blast
  from llist_length [OF l'] have "length_l s' = int (length ws + length vs)" by simp
  then show ?thesis using pl l' by (simp add: unshift_def)
qed

lemma wf_list_link:
  "wf_list s (xs @ x # ys) \<Longrightarrow>
   before_of s x = last_or xs None \<and> behind_of s x = hd_or ys None \<and> alloc s x \<and>
   cleanup_of s x = Some ListCleanup \<and> x \<notin> set xs \<and> x \<notin> set ys"
  by (auto simp: wf_list_def dll_append owned_def)

lemma llist_unlink:
  assumes "llist s (xs @ x # ys) (us @ w # ws)" and "length xs = length us"
  shows "llist (unlink x u s) (xs @ ys) (us @ ws)"
proof -
  from assms have wf: "wf_list s (xs @ x # ys)"
    and vals: "map (value_of s) (xs @ x # ys) = map Some (us @ w # ws)"
    by (simp_all add: llist_def)
  have "value_of (unlink x u s) = value_of s"
    by (rule ext) (simp add: unlink_simps)
  moreover from vals assms(2) have "map (value_of s) (xs @ ys) = map Some (us @ ws)"
    by simp
  ultimately show ?thesis
    using wf_list_unlink [OF wf, of u] by (simp only: llist_def simp_thms)
qed

lemma llist_pop:
  assumes "llist s ns vs"
  shows "\<exists>s'. pop s = (if vs = [] then None else Some (last vs), s') \<and>
           llist s' (butlast ns) (butlast vs)"
proof (cases vs rule: rev_cases)
  case Nil
  with assms have "ns = []" using llist_length [OF assms] by simp
  then have "tail s = None" using assms by (simp add: llist_def wf_list_def)
  then show ?thesis using assms Nil \<open>ns = []\<close> by (simp add: pop_def)
next
  case (snoc us w)
  with llist_length [OF assms] have "ns \<noteq> []" by auto
  then obtain xs x where ns: "ns = xs @ [x]" by (metis rev_exhaust)
  from assms have l: "llist s (xs @ x # []) (us @ w # [])" by (simp add: ns snoc)
  have len: "length xs = length us" using llist_length [OF assms] ns snoc by simp
  from l have tl: "tail s = Some x" by (simp add: llist_def wf_list_def last_or_append)
  from l len have vx: "value_of s x = Some w" by (simp add: llist_def)
  from llist_unlink [OF l len, of False] have "llist (unlink x False s) xs us" by simp
  then show ?thesis using tl vx ns snoc by (simp add: pop_def Let_def unlink_simps)
qed

lemma llist_shift:
  assumes "llist s ns vs"
  shows "\<exists>s'. shift s = (if vs = [] then None else Some (hd vs), s') \<and>
           llist s' (tl ns) (tl vs)"
proof (cases vs)
  case Nil
  with assms have "ns = []" using llist_length [OF assms] by simp
  then have "head s = None" using assms by (simp add: llist_def wf_list_def)
  then show ?thesis using assms Nil \<open>ns = []\<close> by (simp add: shift_def)
next
  case (Cons w ws)
  with llist_length [OF assms] obtain x xs where ns: "ns = x # xs" by (cases ns) auto
  from assms have l: "llist s ([] @ x # xs) ([] @ w # ws)" by (simp add: ns Cons)
  from l have hd: "head s = Some x" by (simp add: llist_def wf_list_def)
  from l have vx: "value_of s x = Some w" by (simp add: llist_def)
  from llist_unlink [OF l, of False] have "llist (unlink x False s) xs ws" by simp
  then show ?thesis using hd vx ns Cons by (simp add: shift_def Let_def unlink_simps)
qed

lemma remove_loop_wf:
  "wf_list s (xs @ y # ys) \<Longrightarrow>
   \<exists>s'. remove_loop v y s = Some (\<exists>r\<in>set (y # ys). value_of s r = Some v, s') \<and>
        wf_list s' (xs @ del1 (\<lambda>r. value_of s r = Some v) (y # ys)) \<and>
        same_values s' s \<and> nextRef s' = nextRef s \<and>
        ((\<forall>r\<in>set (y # ys). value_of s r \<noteq> Some v) \<longrightarrow> s' = s)"
proof (induction ys arbitrary: xs y)
  case Nil
  show ?case
  proof (cases "value_of s y = Some v")
    case True
    then show ?thesis
      using wf_list_unlink [OF Nil, of False]
      by (subst remove_loop.simps) (simp add: unlink_same_values unlink_simps)
  next
    case False
    moreover have "behind_of s y = None" using wf_list_link [OF Nil] by simp
    ultimately show ?thesis
      using Nil by (subst remove_loop.simps) (simp add: same_values_def)
  qed
next
  case (Cons z zs)
  show ?case
  proof (cases "value_of s y = Some v")
    case True
    then show ?thesis
      using wf_list_unlink [OF Cons.prems, of False]
      by (subst remove_loop.simps) (simp add: unlink_same_values unlink_simps)
  next
    case False
    have b: "behind_of s y = Some z" using wf_list_link [OF Cons.prems] by simp
    from Cons.prems have "wf_list s ((xs @ [y]) @ z # zs)" by simp
    from Cons.IH [OF this] obtain s' where
      r: "remove_loop v z s = Some (\<exists>r\<in>set (z # zs). value_of s r = Some v, s')"
      and w: "wf_list s' ((xs @ [y]) @ del1 (\<lambda>r. value_of s r = Some v) (z # zs))"
      and o: "same_values s' s" "nextRef s' = nextRef s"
        "(\<forall>r\<in>set (z # zs). value_of s r \<noteq> Some v) \<longrightarrow> s' = s"
      by blast
    have "remove_loop v y s = remove_loop v z s"
      using False b by (subst remove_loop.simps) simp
    then show ?thesis using r w o False by simp
  qed
qed

lemma map_del1:
  "map f ns = map Some vs \<Longrightarrow>
   map f (del1 (\<lambda>r. f r = Some v) ns) = map Some (remove1 v vs) \<and>
   (\<exists>r\<in>set ns. f r = Some v) = (v \<in> set vs)"
proof (induction ns arbitrary: vs)
  case Nil
  then show ?case by simp
next
  case (Cons n ns)
  then obtain w ws where vs: "vs = w # ws" by (cases vs) auto
  with Cons.prems have "f n = Some w" "map f ns = map Some ws" by simp_all
  with Cons.IH [of ws] vs show ?case by auto
qed

lemma map_filter_values:
  "map f ns = map Some vs \<Longrightarrow>
   map f (filter (\<lambda>r. f r \<noteq> Some v) ns) = map Some (filter (\<lambda>w. w \<noteq> v) vs) \<and>
   (\<exists>r\<in>set ns. f r = Some v) = (v \<in> set vs)"
proof (induction ns arbitrary: vs)
  case Nil
  then show ?case by simp
next
  case (Cons n ns)
  then obtain w ws where vs: "vs = w # ws" by (cases vs) auto
  with Cons.prems have "f n = Some w" "map f ns = map Some ws" by simp_all
  with Cons.IH [of ws] vs show ?case by auto
qed

lemma same_values_eq: "same_values s' s \<Longrightarrow> value_of s' = value_of s"
  by (rule ext) (simp add: same_values_def)

lemma llist_remove:
  assumes "llist s ns vs"
  shows "\<exists>s'. remove v s = Some (v \<in> set vs, s') \<and>
           llist s' (del1 (\<lambda>r. value_of s r = Some v) ns) (remove1 v vs) \<and>
           (v \<notin> set vs \<longrightarrow> s' = s)"
proof (cases ns)
  case Nil
  with assms have "head s = None" "vs = []" by (simp_all add: llist_def wf_list_def)
  then show ?thesis using assms Nil by (simp add: remove_def)
next
  case (Cons y ys)
  from assms have wf: "wf_list s ([] @ y # ys)" and vals: "map (value_of s) ns = map Some vs"
    by (simp_all add: llist_def Cons)
  from wf have hd: "head s = Some y" by (simp add: wf_list_def)
  from remove_loop_wf [OF wf, of v] obtain s' where
    r: "remove_loop v y s = Some (\<exists>r\<in>set (y # ys). value_of s r = Some v, s')"
    and w: "wf_list s' (del1 (\<lambda>r. value_of s r = Some v) (y # ys))"
    and o: "same_values s' s" "(\<forall>r\<in>set (y # ys). value_of s r \<noteq> Some v) \<longrightarrow> s' = s"
    by auto
  from map_del1 [OF vals, of v] have
    m: "map (value_of s) (del1 (\<lambda>r. value_of s r = Some v) ns) = map Some (remove1 v vs)"
    and e: "(\<exists>r\<in>set ns. value_of s r = Some v) = (v \<in> set vs)"
    by simp_all
  have "llist s' (del1 (\<lambda>r. value_of s r = Some v) ns) (remove1 v vs)"
    using w m unfolding llist_def same_values_eq [OF o(1)] Cons by blast
  moreover have "remove v s = Some (v \<in> set vs, s')"
    using r e hd by (simp add: remove_def Cons)
  moreover have "v \<notin> set vs \<longrightarrow> s' = s"
    using o(2) e Cons by blast
  ultimately show ?thesis by blast
qed

lemma removeAll_loop_wf:
  "wf_list s (xs @ y # ys) \<Longrightarrow>
   \<exists>s'. removeAll_loop v y f s = Some (f \<or> (\<exists>r\<in>set (y # ys). value_of s r = Some v), s') \<and>
        wf_list s' (xs @ filter (\<lambda>r. value_of s r \<noteq> Some v) (y # ys)) \<and>
        same_values s' s \<and> nextRef s' = nextRef s"
proof (induction ys arbitrary: s xs y f)
  case Nil
  show ?case
  proof (cases "value_of s y = Some v")
    case True
    have "behind_of (unlink y False s) y = None"
      using wf_list_link [OF Nil] by (auto simp: unlink_simps dest: last_or_mem)
    then show ?thesis
      using True wf_list_unlink [OF Nil, of False]
      by (subst removeAll_loop.simps) (simp add: unlink_same_values unlink_simps Let_def)
  next
    case False
    moreover have "behind_of s y = None" using wf_list_link [OF Nil] by simp
    ultimately show ?thesis
      using Nil by (subst removeAll_loop.simps) (simp add: same_values_def)
  qed
next
  case (Cons z zs)
  show ?case
  proof (cases "value_of s y = Some v")
    case True
    let ?s1 = "unlink y False s"
    have b: "behind_of ?s1 y = Some z"
      using wf_list_link [OF Cons.prems] by (auto simp: unlink_simps dest: last_or_mem)
    have w1: "wf_list ?s1 (xs @ z # zs)" by (rule wf_list_unlink [OF Cons.prems])
    have v1: "value_of ?s1 = value_of s" by (rule ext) (simp add: unlink_simps)
    from Cons.IH [OF w1, of True] obtain s' where
      r: "removeAll_loop v z True ?s1 = Some (True, s')"
      and w: "wf_list s' (xs @ filter (\<lambda>r. value_of ?s1 r \<noteq> Some v) (z # zs))"
      and o: "same_values s' ?s1" "nextRef s' = nextRef ?s1"
      by auto
    have "removeAll_loop v y f s = removeAll_loop v z True ?s1"
      using True b by (subst removeAll_loop.simps) (simp add: Let_def)
    moreover have "same_values s' s" using o(1) by (simp add: same_values_def unlink_simps)
    ultimately show ?thesis using r w o(2) True unfolding v1 by (simp add: unlink_simps)
  next
    case False
    have b: "behind_of s y = Some z" using wf_list_link [OF Cons.prems] by simp
    from Cons.prems have "wf_list s ((xs @ [y]) @ z # zs)" by simp
    from Cons.IH [OF this, of f] obtain s' where
      r: "removeAll_loop v z f s = Some (f \<or> (\<exists>r\<in>set (z # zs). value_of s r = Some v), s')"
      and w: "wf_list s' ((xs @ [y]) @ filter (\<lambda>r. value_of s r \<noteq> Some v) (z # zs))"
      and o: "same_values s' s" "nextRef s' = nextRef s"
      by blast
    have "removeAll_loop v y f s = removeAll_loop v z f s"
      using False b by (subst removeAll_loop.simps) simp
    then show ?thesis using r w o False by simp
  qed
qed

lemma llist_removeAllOccurrences:
  assumes "llist s ns vs"
  shows "\<exists>s'. removeAllOccurrences v s = Some (v \<in> set vs, s') \<and>
           llist s' (filter (\<lambda>r. value_of s r \<noteq> Some v) ns) (filter (\<lambda>w. w \<noteq> v) vs)"
proof (cases ns)
  case Nil
  with assms have "head s = None" "vs = []" by (simp_all add: llist_def wf_list_def)
  then show ?thesis using assms Nil by (simp add: removeAllOccurrences_def)
next
  case (Cons y ys)
  from assms have wf: "wf_list s ([] @ y # ys)" and vals: "map (value_of s) ns = map Some vs"
    by (simp_all add: llist_def Cons)
  from wf have hd: "head s = Some y" by (simp add: wf_list_def)
  from removeAll_loop_wf [OF wf, of v False] obtain s' where
    r: "removeAll_loop v y False s = Some (\<exists>r\<in>set (y # ys). value_of s r = Some v, s')"
    and w: "wf_list s' (filter (\<lambda>r. value_of s r \<noteq> Some v) (y # ys))"
    and o: "same_values s' s"
    by auto
  from map_filter_values [OF vals, of v] have
    m: "map (value_of s) (filter (\<lambda>r. value_of s r \<noteq> Some v) ns) = map Some (filter (\<lambda>w. w \<noteq> v) vs)"
    and e: "(\<exists>r\<in>set ns. value_of s r = Some v) = (v \<in> set vs)"
    by simp_all
  have "llist s' (filter (\<lambda>r. value_of s r \<noteq> Some v) ns) (filter (\<lambda>w. w \<noteq> v) vs)"
    using w m unfolding llist_def same_values_eq [OF o] Cons by blast
  moreover have "removeAllOccurrences v s = Some (v \<in> set vs, s')"
    using r e hd by (simp add: removeAllOccurrences_def Cons)
  ultimately show ?thesis by blast
qed

lemma clear_loop_wf:
  "wf_list s ns \<Longrightarrow>
   \<exists>s'. clear_loop s = Some s' \<and> wf_list s' [] \<and> same_values s' s \<and> nextRef s' = nextRef s \<and>
        (\<forall>r\<in>set ns. before_of s' r = None \<and> behind_of s' r = None \<and> cleanup_of s' r = None) \<and>
        same_outside ns s' s"
proof (induction ns arbitrary: s)
  case Nil
  then have "head s = None" by (simp add: wf_list_def)
  then show ?case using Nil
    by (subst clear_loop.simps) (simp add: same_values_def same_outside_def)
next
  case (Cons x xs)
  let ?s1 = "unlink x True s"
  from Cons.prems have wf: "wf_list s ([] @ x # xs)" by simp
  from wf have hd: "head s = Some x" by (simp add: wf_list_def)
  have w1: "wf_list ?s1 xs" using wf_list_unlink [OF wf, of True] by simp
  have x: "x \<notin> set xs" using wf_list_link [OF wf] by simp
  from Cons.IH [OF w1] obtain s' where c: "clear_loop ?s1 = Some s'" and w': "wf_list s' []"
    and v': "same_values s' ?s1" and n': "nextRef s' = nextRef ?s1"
    and l': "\<forall>r\<in>set xs. before_of s' r = None \<and> behind_of s' r = None \<and> cleanup_of s' r = None"
    and o': "same_outside xs s' ?s1"
    by blast
  have c0: "clear_loop s = Some s'"
    using hd c by (subst clear_loop.simps) simp
  have lx: "before_of s' x = None \<and> behind_of s' x = None \<and> cleanup_of s' x = None"
    using o' x by (simp add: same_outside_def unlink_simps)
  have so: "same_outside (x # xs) s' s"
    using o' unlink_same_outside [OF wf, of True]
    by (simp add: same_outside_def)
  have "same_values s' s" using v' by (simp add: same_values_def unlink_simps)
  then show ?case using c0 w' n' l' lx so by (simp add: unlink_simps)
qed

lemma llist_clear:
  assumes "llist s ns vs"
  shows "\<exists>s'. clear u s = Some s' \<and> llist s' [] [] \<and> nextRef s' = nextRef s \<and>
           (if u then \<forall>r\<in>set ns. before_of s' r = None \<and> behind_of s' r = None
            else \<forall>r. before_of s' r = before_of s r \<and> behind_of s' r = behind_of s r)"
proof (cases u)
  case False
  then show ?thesis by (simp add: clear_def llist_def wf_list_def)
next
  case True
  from assms have "wf_list s ns" by (simp add: llist_def)
  from clear_loop_wf [OF this] obtain s1 where c: "clear_loop s = Some s1"
    and n: "nextRef s1 = nextRef s"
    and l: "\<forall>r\<in>set ns. before_of s1 r = None \<and> behind_of s1 r = None \<and> cleanup_of s1 r = None"
    by blast
  then show ?thesis using True by (simp add: clear_def llist_def wf_list_def)
qed

lemma walk_behind_dll:
  "dll s p ns None \<Longrightarrow>
   walk_behind s (hd_or ns None) k = (if k < length ns then Some (ns ! k) else None)"
proof (induction ns arbitrary: p k)
  case Nil
  then show ?case by simp
next
  case (Cons x xs)
  then show ?case by (cases k) auto
qed

lemma walk_before_dll:
  "dll s None ns n \<Longrightarrow>
   walk_before s (last_or ns None) k =
     (if k < length ns then Some (ns ! (length ns - 1 - k)) else None)"
proof (induction ns arbitrary: n k rule: rev_induct)
  case Nil
  then show ?case by simp
next
  case (snoc x xs)
  from snoc.prems have d: "dll s None xs (Some x)" and b: "before_of s x = last_or xs None"
    by (simp_all add: dll_append)
  show ?case
  proof (cases k)
    case 0
    then show ?thesis by (simp add: last_or_append)
  next
    case (Suc j)
    have "walk_before s (last_or (xs @ [x]) None) k = walk_before s (last_or xs None) j"
      using Suc b by (simp add: last_or_append)
    also have "\<dots> = (if j < length xs then Some (xs ! (length xs - 1 - j)) else None)"
      by (rule snoc.IH [OF d])
    also have "\<dots> = (if k < length (xs @ [x]) then Some ((xs @ [x]) ! (length (xs @ [x]) - 1 - k)) else None)"
      using Suc by (auto simp: nth_append)
    finally show ?thesis .
  qed
qed

lemma wf_list_getItemByIndex:
  assumes "wf_list s ns"
  shows "getItemByIndex i s =
     (if ns = [] then None
      else if 0 \<le> i \<and> i < int (length ns) then Some (ns ! nat i)
      else if i < 0 \<and> - int (length ns) \<le> i then Some (ns ! nat (int (length ns) + i))
      else None)"
proof (cases ns)
  case Nil
  with assms have "head s = None" by (simp add: wf_list_def)
  then show ?thesis using Nil by (simp add: getItemByIndex_def)
next
  case (Cons x xs)
  from assms have d: "dll s None ns None" and hd: "head s = hd_or ns None"
    and tl: "tail s = last_or ns None"
    by (simp_all add: wf_list_def)
  have h: "head s = Some x" using hd Cons by simp
  consider "i > 0" | "i < 0" | "i = 0" by linarith
  then show ?thesis
  proof cases
    case 1
    have "getItemByIndex i s = walk_behind s (hd_or ns None) (nat i)"
      using 1 h hd by (simp add: getItemByIndex_def)
    also have "\<dots> = (if nat i < length ns then Some (ns ! nat i) else None)"
      by (rule walk_behind_dll [OF d])
    finally show ?thesis using 1 Cons by auto
  next
    case 2
    have "getItemByIndex i s = walk_before s (last_or ns None) (nat (- i) - 1)"
      using 2 h tl by (simp add: getItemByIndex_def)
    also have "\<dots> = (if nat (- i) - 1 < length ns
        then Some (ns ! (length ns - 1 - (nat (- i) - 1))) else None)"
      by (rule walk_before_dll [OF d])
    finally have g: "getItemByIndex i s = (if nat (- i) - 1 < length ns
        then Some (ns ! (length ns - 1 - (nat (- i) - 1))) else None)" .
    show ?thesis
    proof (cases "- int (length ns) \<le> i")
      case True
      then have "nat (- i) - 1 < length ns" using 2 Cons by auto
      moreover have "length ns - 1 - (nat (- i) - 1) = nat (int (length ns) + i)"
        using True 2 by auto
      ultimately show ?thesis using g 2 True Cons by simp
    next
      case False
      then have "\<not> nat (- i) - 1 < length ns" by auto
      then show ?thesis using g 2 False Cons by simp
    qed
  next
    case 3
    then show ?thesis using h Cons by (simp add: getItemByIndex_def)
  qed
qed

lemma wf_list_aggregate:
  assumes "wf_list s ns"
  shows "aggregate_inv s"
proof -
  from assms have d: "dll s None ns None" and hd: "head s = hd_or ns None"
    and tl: "tail s = last_or ns None" and len: "length_l s = int (length ns)"
    and dist: "distinct ns"
    by (simp_all add: wf_list_def)
  have a: "(length_l s = 0) = (head s = None \<and> tail s = None)"
    using hd tl len by (auto simp: hd_or_eq last_or_eq)
  have b: "(length_l s = 1) = (head s \<noteq> None \<and> head s = tail s)"
  proof (cases ns)
    case Nil
    then show ?thesis using hd tl len by simp
  next
    case (Cons x xs)
    show ?thesis
    proof (cases xs)
      case Nil
      then show ?thesis using Cons hd tl len by simp
    next
      case (Cons y ys)
      have "last xs \<in> set xs" using Cons by simp
      then have "x \<noteq> last xs" using dist \<open>ns = x # xs\<close> by auto
      then show ?thesis using Cons \<open>ns = x # xs\<close> hd tl len by (simp add: last_or_eq)
    qed
  qed
  have c: "head s \<noteq> None \<and> tail s \<noteq> None \<and> head s \<noteq> tail s \<and>
         walk_behind s (head s) (nat (length_l s - 1)) = tail s \<and>
         walk_before s (tail s) (nat (length_l s - 1)) = head s" if g: "length_l s > 1"
  proof -
    from g len have l2: "1 < length ns" by simp
    then have ne: "ns \<noteq> []" by auto
    have k: "nat (length_l s - 1) = length ns - 1" using len by simp
    have "walk_behind s (head s) (nat (length_l s - 1)) = Some (ns ! (length ns - 1))"
      unfolding hd k using walk_behind_dll [OF d, of "length ns - 1"] ne by simp
    moreover have "walk_before s (tail s) (nat (length_l s - 1)) = Some (ns ! 0)"
      unfolding tl k using walk_before_dll [OF d, of "length ns - 1"] ne by simp
    moreover have "tail s = Some (ns ! (length ns - 1))"
      using tl ne by (simp add: last_or_eq last_conv_nth)
    moreover have "head s = Some (ns ! 0)"
      using hd ne by (simp add: hd_or_eq hd_conv_nth)
    moreover have "ns ! 0 \<noteq> ns ! (length ns - 1)"
    proof
      assume e: "ns ! 0 = ns ! (length ns - 1)"
      have i: "0 < length ns" and j: "length ns - 1 < length ns" using l2 by linarith+
      from nth_eq_iff_index_eq [OF dist i j] e have "0 = length ns - 1" by blast
      then show False using l2 by simp
    qed
    ultimately show ?thesis by simp
  qed
  show ?thesis unfolding aggregate_inv_def using a b c by blast
qed

lemma wf_list_llist: "wf_list s ns \<Longrightarrow> \<exists>vs. llist s ns vs"
proof -
  assume wf: "wf_list s ns"
  then have "\<forall>r\<in>set ns. alloc s r" by (auto simp: wf_list_def dest: dll_alloc)
  then have "\<forall>r\<in>set ns. \<exists>v. value_of s r = Some v"
    by (auto simp: alloc_def value_of_def split: option.splits)
  then have "\<exists>vs. map (value_of s) ns = map Some vs"
  proof (induction ns)
    case Nil
    then show ?case by simp
  next
    case (Cons n ns)
    then obtain v vs where "value_of s n = Some v" "map (value_of s) ns = map Some vs" by auto
    then have "map (value_of s) (n # ns) = map Some (v # vs)" by simp
    then show ?case by blast
  qed
  then show ?thesis using wf by (auto simp: llist_def)
qed

lemma reachable_llist: "reachable s \<Longrightarrow> \<exists>ns vs. llist s ns vs"
proof (induction rule: reachable.induct)
  case (by_constructor vs s)
  then show ?case using llist_LinkedList [of vs] by auto
next
  case (by_push s vs n s')
  then obtain ns ws where "llist s ns ws" by blast
  from llist_push [OF this, of vs] by_push.hyps show ?case by auto
next
  case (by_unshift s vs n s')
  then obtain ns ws where "llist s ns ws" by blast
  from llist_unshift [OF this, of vs] by_unshift.hyps show ?case by auto
next
  case (by_pop s r s')
  then obtain ns ws where "llist s ns ws" by blast
  from llist_pop [OF this] by_pop.hyps show ?case by auto
next
  case (by_shift s r s')
  then obtain ns ws where "llist s ns ws" by blast
  from llist_shift [OF this] by_shift.hyps show ?case by auto
next
  case (by_remove s v b s')
  then obtain ns ws where "llist s ns ws" by blast
  from llist_remove [OF this, of v] by_remove.hyps show ?case by auto
next
  case (by_removeAllOccurrences s v b s')
  then obtain ns ws where "llist s ns ws" by blast
  from llist_removeAllOccurrences [OF this, of v] by_removeAllOccurrences.hyps show ?case by auto
next
  case (by_clear s unchain s')
  then obtain ns ws where "llist s ns ws" by blast
  from llist_clear [OF this, of unchain] by_clear.hyps show ?case by auto
qed

section \<open>Splicing chains\<close>

lemma chainEnd_dll:
  "dll s p (x # xs) None \<Longrightarrow> chainEnd s x = Some (last (x # xs))"
proof (induction xs arbitrary: p x)
  case Nil
  then show ?case by (subst chainEnd.simps) simp
next
  case (Cons y ys)
  then have "behind_of s x = Some y" "dll s (Some x) (y # ys) None" by simp_all
  with Cons.IH [of "Some x" y] show ?case by (subst chainEnd.simps) simp
qed

lemma dll_change_both:
  assumes "dll s p xs n" and "distinct xs"
    and "\<forall>r\<in>set xs. alloc s' r = alloc s r \<and>
           before_of s' r = (if Some r = hd_or xs None then p' else before_of s r) \<and>
           behind_of s' r = (if Some r = last_or xs None then n' else behind_of s r)"
  shows "dll s' p' xs n'"
proof (cases xs)
  case Nil
  then show ?thesis by simp
next
  case (Cons x ys)
  from assms(1) Cons have d: "dll s (Some x) ys n" and ax: "alloc s x"
    and nx: "behind_of s x = hd_or ys n"
    by simp_all
  have xys: "x \<notin> set ys" using assms(2) Cons by simp
  have lo: "last_or xs None = last_or ys (Some x)" using Cons by simp
  have "dll s' (Some x) ys n'"
  proof (rule dll_change_next [OF d])
    show "distinct ys" using assms(2) Cons by simp
    show "\<forall>r\<in>set ys. alloc s' r = alloc s r \<and> before_of s' r = before_of s r \<and>
        behind_of s' r = (if Some r = last_or ys None then n' else behind_of s r)"
    proof
      fix r assume r: "r \<in> set ys"
      then have "ys \<noteq> []" by auto
      then have "last_or ys (Some x) = last_or ys None" by (simp add: last_or_eq)
      moreover have "r \<noteq> x" using r xys by auto
      moreover have "r \<in> set xs" using r Cons by simp
      ultimately show "alloc s' r = alloc s r \<and> before_of s' r = before_of s r \<and>
        behind_of s' r = (if Some r = last_or ys None then n' else behind_of s r)"
        using assms(3) lo Cons by auto
    qed
  qed
  moreover have "behind_of s' x = hd_or ys n'"
  proof (cases ys)
    case Nil
    then show ?thesis using assms(3) Cons by simp
  next
    case (Cons y zs)
    then have "last ys \<in> set ys" by simp
    then have "x \<noteq> last ys" using xys by auto
    then have "Some x \<noteq> last_or xs None" using lo Cons by (simp add: last_or_eq)
    then show ?thesis using assms(3) \<open>xs = x # ys\<close> nx Cons by simp
  qed
  moreover have "alloc s' x" "before_of s' x = p'" using assms(3) Cons ax by simp_all
  ultimately show ?thesis using Cons by simp
qed

lemma dll_paired:
  "dll s p xs None \<Longrightarrow> a \<in> set xs \<Longrightarrow> behind_of s a = Some b \<Longrightarrow> before_of s b = Some a"
proof (induction xs arbitrary: p)
  case Nil
  then show ?case by simp
next
  case (Cons x xs)
  show ?case
  proof (cases "a = x")
    case True
    with Cons.prems have "hd_or xs None = Some b" "dll s (Some x) xs None" by simp_all
    then show ?thesis using True by (cases xs) simp_all
  next
    case False
    with Cons.prems have "a \<in> set xs" "dll s (Some x) xs None" by simp_all
    then show ?thesis using Cons.IH Cons.prems(3) by blast
  qed
qed

lemma insertBehind_splice:
  assumes A: "dll s p (this # rest) None"
    and B: "dll s q (item # cs) None"
    and D: "distinct (this # rest @ item # cs)"
  shows "\<exists>s'. insertBehind this item s = Some s' \<and>
           dll s' p (this # (item # cs) @ rest) None \<and>
           (\<forall>r. alloc s' r = alloc s r) \<and>
           (\<forall>r. before_of s' r =
              (if Some r = hd_or rest None then Some (last (item # cs))
               else if r = item then Some this else before_of s r)) \<and>
           (\<forall>r. behind_of s' r =
              (if r = this then Some item
               else if r = last (item # cs) \<and> rest \<noteq> [] then hd_or rest None
               else behind_of s r))"
proof -
  define E where "E = last (item # cs)"
  let ?s1 = "insertBefore item this s"
  from A have at: "alloc s this" and bt: "before_of s this = p" and nt: "behind_of s this = hd_or rest None"
    and dr: "dll s (Some this) rest None"
    by simp_all
  from B have ai: "alloc s item" by simp
  have ti: "this \<noteq> item" using D by auto
  have Ecs: "E \<in> set (item # cs)" unfolding E_def by (rule last_in_set) simp
  have tE: "this \<noteq> E" using D Ecs by auto
  have E_rest: "E \<notin> set rest" using D Ecs by auto
  have aE: "alloc s E" using dll_alloc [OF B Ecs] .
  have nE: "behind_of s E = None"
  proof -
    have "item # cs = butlast (item # cs) @ [E]" unfolding E_def by simp
    then have "dll s q (butlast (item # cs) @ [E]) None" using B by metis
    then show ?thesis unfolding dll_append by simp
  qed
  show ?thesis
  proof (cases rest)
    case Nil
    define s' where "s' = set_behind this (Some item) ?s1"
    have ib: "insertBehind this item s = Some s'"
      unfolding s'_def by (rule insertBehind_end) (simp add: nt Nil)
    have al: "\<And>r. alloc s' r = alloc s r" by (simp add: s'_def insertBefore_simps)
    have bf: "\<And>r. before_of s' r = (if r = item then Some this else before_of s r)"
      using ai by (simp add: s'_def insertBefore_simps)
    have bh: "\<And>r. behind_of s' r = (if r = this then Some item else behind_of s r)"
      using at by (simp add: s'_def insertBefore_simps)
    have "dll s' (Some this) (item # cs) None"
    proof (rule dll_change_prev [OF B])
      show "distinct (item # cs)" using D by simp
      show "\<forall>r\<in>set (item # cs). alloc s' r = alloc s r \<and> behind_of s' r = behind_of s r \<and>
          before_of s' r = (if Some r = hd_or (item # cs) None then Some this else before_of s r)"
        using D unfolding al bf bh by auto
    qed
    then have "dll s' p (this # (item # cs) @ rest) None"
      using Nil at bt ti ti [symmetric] by (simp add: al bf bh)
    then show ?thesis using ib al bf bh Nil by (auto simp: E_def)
  next
    case (Cons old rest')
    let ?s2 = "insertBefore old E ?s1"
    let ?s3 = "set_behind E (Some old) (insertBefore old E ?s2)"
    define s' where "s' = set_behind this (Some item) ?s3"
    have ao: "alloc s old" using dr Cons by simp
    have oi: "old \<noteq> item" and ot: "old \<noteq> this" and oE: "old \<noteq> E"
      using D Cons Ecs by auto
    have d1: "dll ?s1 (Some this) (item # cs) None"
    proof (rule dll_change_prev [OF B])
      show "distinct (item # cs)" using D by simp
      show "\<forall>r\<in>set (item # cs). alloc ?s1 r = alloc s r \<and> behind_of ?s1 r = behind_of s r \<and>
          before_of ?s1 r = (if Some r = hd_or (item # cs) None then Some this else before_of s r)"
        using ai by (auto simp: insertBefore_simps)
    qed
    have ce: "chainEnd ?s1 item = Some E" unfolding E_def by (rule chainEnd_dll [OF d1])
    have rec: "insertBehind E old ?s2 = Some ?s3"
      by (rule insertBehind_end) (simp add: insertBefore_simps nE)
    have ib: "insertBehind this item s = Some s'"
      unfolding s'_def
      by (subst insertBehind.simps) (simp add: Let_def insertBefore_simps nt Cons ce rec)
    have al: "\<And>r. alloc s' r = alloc s r" by (simp add: s'_def insertBefore_simps)
    have bf: "\<And>r. before_of s' r =
        (if r = old then Some E else if r = item then Some this else before_of s r)"
      using ai ao by (simp add: s'_def insertBefore_simps)
    have bh: "\<And>r. behind_of s' r =
        (if r = this then Some item else if r = E then Some old else behind_of s r)"
      using at aE by (simp add: s'_def insertBefore_simps)
    have p1: "dll s' (Some this) (item # cs) (Some old)"
    proof (rule dll_change_both [OF B])
      show "distinct (item # cs)" using D by simp
      show "\<forall>r\<in>set (item # cs). alloc s' r = alloc s r \<and>
          before_of s' r = (if Some r = hd_or (item # cs) None then Some this else before_of s r) \<and>
          behind_of s' r = (if Some r = last_or (item # cs) None then Some old else behind_of s r)"
        using D Cons unfolding al bf bh last_or_eq E_def [symmetric] by auto
    qed
    have p2: "dll s' (Some E) (old # rest') None"
    proof (rule dll_change_prev [of s "Some this"])
      show "dll s (Some this) (old # rest') None" using dr Cons by simp
      show "distinct (old # rest')" using D Cons by simp
      show "\<forall>r\<in>set (old # rest'). alloc s' r = alloc s r \<and> behind_of s' r = behind_of s r \<and>
          before_of s' r = (if Some r = hd_or (old # rest') None then Some E else before_of s r)"
        using D Cons E_rest unfolding al bf bh by auto
    qed
    have "dll s' (Some this) ((item # cs) @ old # rest') None"
      unfolding dll_append using p1 p2 by (simp add: last_or_eq E_def)
    then have "dll s' p (this # (item # cs) @ rest) None"
      using Cons at bt ti ti [symmetric] ot ot [symmetric] by (simp add: al bf bh)
    then show ?thesis using ib al bf bh Cons unfolding E_def by auto
  qed
qed

section \<open>The claims\<close>

text \<open>
  C1 (the aggregate invariant of \<open>head\<close>, \<open>tail\<close> and \<open>length\<close> holds for every list
  produced by the constructor, \<open>push\<close>, \<open>unshift\<close>, \<open>pop\<close>, \<open>shift\<close>, \<open>remove\<close>,
  \<open>removeAllOccurrences\<close> and \<open>clear\<close>): \<open>reachable\<close> is the set of states these
  operations produce, \<open>aggregate_inv\<close> the invariant as the specification words it.
\<close>

theorem reachable_aggregate_inv: "reachable s \<Longrightarrow> aggregate_inv s"
proof -
  assume "reachable s"
  then obtain ns vs where "llist s ns vs" using reachable_llist by blast
  then have "wf_list s ns" by (simp add: llist_def)
  then show ?thesis by (rule wf_list_aggregate)
qed

theorem reachable_aggregate_inv_witness:
  "reachable list_123 \<and> aggregate_inv list_123 \<and> length_l list_123 = 3 \<and>
   walk_behind list_123 (head list_123) 2 = tail list_123 \<and>
   walk_before list_123 (tail list_123) 2 = head list_123"
proof -
  have r: "reachable list_123" by (rule by_constructor [OF LinkedList_123])
  have l: "length_l list_123 = 3" by (simp add: list_123_def)
  from reachable_aggregate_inv [OF r] show ?thesis
    using r l by (simp add: aggregate_inv_def)
qed

text \<open>
  Every operation returns on a reachable state: none of the loops runs forever there.
\<close>

lemma reachable_operations_return:
  assumes "reachable s"
  shows "(\<exists>n s'. push vs s = Some (n, s')) \<and> (\<exists>n s'. unshift vs s = Some (n, s')) \<and>
         (\<exists>b s'. remove v s = Some (b, s')) \<and> (\<exists>b s'. removeAllOccurrences v s = Some (b, s')) \<and>
         (\<exists>s'. clear u s = Some s')"
proof -
  from assms obtain ns ws where l: "llist s ns ws" using reachable_llist by blast
  show ?thesis
    using llist_push [OF l, of vs] llist_unshift [OF l, of vs] llist_remove [OF l, of v]
      llist_removeAllOccurrences [OF l, of v] llist_clear [OF l, of u]
    by blast
qed

text \<open>
  C2 (on an empty list \<open>reduce\<close> and \<open>reduceRight\<close> fail only when no seed is supplied,
  and return every supplied seed, falsy ones included): the code tests \<open>!initialValue\<close>,
  so the falsy seeds \<open>0\<close>, \<open>''\<close> and \<open>false\<close> raise the TypeError as well.
\<close>

theorem reduce_empty_falsy_seed_throws:
  "reduce cb (JNum 0) empty_state =
     Some (Inl (TypeError ''Empty accumulator on empty LinkedList is not allowed.'')) \<and>
   reduce cb (JStr []) empty_state =
     Some (Inl (TypeError ''Empty accumulator on empty LinkedList is not allowed.'')) \<and>
   reduce cb (JBool False) empty_state =
     Some (Inl (TypeError ''Empty accumulator on empty LinkedList is not allowed.'')) \<and>
   reduceRight cb (JNum 0) empty_state =
     Some (Inl (TypeError ''Empty accumulator on empty LinkedList is not allowed.'')) \<and>
   reduceRight cb (JStr []) empty_state =
     Some (Inl (TypeError ''Empty accumulator on empty LinkedList is not allowed.'')) \<and>
   reduceRight cb (JBool False) empty_state =
     Some (Inl (TypeError ''Empty accumulator on empty LinkedList is not allowed.''))"
  by (simp add: reduce_def reduceRight_def empty_state_def)

text \<open>
  What the code does on an empty list, for every seed: it raises exactly when the seed is
  falsy (a missing seed is \<open>undefined\<close>, which is falsy), and otherwise returns the seed
  with no call of the callback.
\<close>

lemma reduce_empty:
  "head s = None \<Longrightarrow>
   reduce cb seed s =
     (if truthy seed then Some (Inr (seed, 0))
      else Some (Inl (TypeError ''Empty accumulator on empty LinkedList is not allowed.'')))"
  by (simp add: reduce_def)

lemma reduceRight_empty:
  "tail s = None \<Longrightarrow>
   reduceRight cb seed s =
     (if truthy seed then Some (Inr (seed, 0))
      else Some (Inl (TypeError ''Empty accumulator on empty LinkedList is not allowed.'')))"
  by (simp add: reduceRight_def)

text \<open>
  C3, amended (\<open>this.insertBehind(item)\<close> splices the whole forward chain of \<open>item\<close>
  in behind \<open>this\<close>, when that chain has no item in common with \<open>this\<close> and the items
  behind \<open>this\<close>). The chain of \<open>item\<close> is \<open>item # cs\<close>, the items behind \<open>this\<close> are
  \<open>rest\<close>, both doubly linked (\<open>dll\<close>) and with no item in common. Then the call
  returns, \<open>item.before\<close> is \<open>this\<close>, \<open>this.behind\<close> is \<open>item\<close>, the old successor of
  \<open>this\<close> follows the last item of the chain and points back to it, and the items from
  \<open>this\<close> on are \<open>this\<close>, the chain, \<open>rest\<close>, doubly linked: wherever \<open>a.behind\<close> is \<open>b\<close>,
  \<open>b.before\<close> is \<open>a\<close>.
\<close>

theorem insertBehind_splices_chain:
  assumes "dll s p (this # rest) None" and "dll s q (item # cs) None"
    and "distinct (this # rest @ item # cs)"
  shows "\<exists>s'. insertBehind this item s = Some s' \<and>
           before_of s' item = Some this \<and> behind_of s' this = Some item \<and>
           (\<forall>oldNext. behind_of s this = Some oldNext \<longrightarrow>
              behind_of s' (last (item # cs)) = Some oldNext \<and>
              before_of s' oldNext = Some (last (item # cs))) \<and>
           dll s' p (this # (item # cs) @ rest) None \<and>
           (\<forall>a\<in>set (this # (item # cs) @ rest). \<forall>b.
              behind_of s' a = Some b \<longrightarrow> before_of s' b = Some a)"
proof -
  define E where "E = last (item # cs)"
  from insertBehind_splice [OF assms] obtain s' where ib: "insertBehind this item s = Some s'"
    and d: "dll s' p (this # (item # cs) @ rest) None"
    and bf: "\<And>r. before_of s' r =
              (if Some r = hd_or rest None then Some E
               else if r = item then Some this else before_of s r)"
    and bh: "\<And>r. behind_of s' r =
              (if r = this then Some item
               else if r = E \<and> rest \<noteq> [] then hd_or rest None
               else behind_of s r)"
    unfolding E_def by blast
  have nt: "behind_of s this = hd_or rest None" using assms(1) by simp
  have "E \<in> set (item # cs)" unfolding E_def by (rule last_in_set) simp
  then have tE: "E \<noteq> this" using assms(3) by auto
  have ir: "hd_or rest None \<noteq> Some item" using assms(3) by (cases rest) auto
  have 1: "before_of s' item = Some this" using ir by (simp add: bf)
  have 2: "behind_of s' this = Some item" by (simp add: bh)
  have 3: "behind_of s' E = Some oldNext \<and> before_of s' oldNext = Some E"
    if "behind_of s this = Some oldNext" for oldNext
    using that nt tE by (cases rest) (simp_all add: bf bh)
  have 4: "\<forall>a\<in>set (this # (item # cs) @ rest). \<forall>b.
              behind_of s' a = Some b \<longrightarrow> before_of s' b = Some a"
    using dll_paired [OF d] by blast
  show ?thesis using ib 1 2 3 4 d unfolding E_def by blast
qed

theorem insertBehind_splices_chain_witness:
  "dll chains_123_456 (Some 0) [1, 2] None \<and> dll chains_123_456 None [3, 4, 5] None \<and>
   distinct [1, 2, 3, 4, 5 :: nat] \<and>
   (\<exists>s'. insertBehind 1 3 chains_123_456 = Some s' \<and>
      before_of s' 3 = Some 1 \<and> behind_of s' 1 = Some 3 \<and>
      behind_of s' 5 = Some 2 \<and> before_of s' 2 = Some 5 \<and>
      dll s' (Some 0) [1, 3, 4, 5, 2] None)"
proof -
  have a: "dll chains_123_456 (Some 0) (1 # [2]) None"
    by (simp add: chains_123_456_def alloc_def before_of_def behind_of_def)
  have b: "dll chains_123_456 None (3 # [4, 5]) None"
    by (simp add: chains_123_456_def alloc_def before_of_def behind_of_def)
  have c: "distinct (1 # [2] @ 3 # [4, 5 :: nat])" by simp
  have n: "behind_of chains_123_456 1 = Some 2"
    by (simp add: chains_123_456_def behind_of_def)
  from insertBehind_splices_chain [OF a b c] obtain s' where
    "insertBehind 1 3 chains_123_456 = Some s'" "before_of s' 3 = Some 1"
    "behind_of s' 1 = Some 3"
    "\<forall>oldNext. behind_of chains_123_456 1 = Some oldNext \<longrightarrow>
        behind_of s' (last (3 # [4, 5])) = Some oldNext \<and>
        before_of s' oldNext = Some (last (3 # [4, 5]))"
    "dll s' (Some 0) (1 # (3 # [4, 5]) @ [2]) None"
    by blast
  then show ?thesis using a b n by auto
qed

text \<open>
  Without the last hypothesis the statement fails. When \<open>b\<close> is already the successor
  of \<open>a\<close>, \<open>a.insertBehind(b)\<close> takes \<open>b\<close> both as the chain to insert and as the old
  successor to re-attach behind it, and leaves \<open>b\<close> linked to itself.
\<close>

lemma insertBehind_successor_state:
  assumes "alloc s a" and "alloc s b" and "a \<noteq> b"
    and "behind_of s a = Some b" and "behind_of s b = None"
  shows "insertBehind a b s =
     Some (set_behind a (Some b) (set_behind b (Some b)
       (insertBefore b b (insertBefore b b (insertBefore b a s)))))"
proof -
  let ?s1 = "insertBefore b a s"
  let ?s2 = "insertBefore b b ?s1"
  let ?s3 = "set_behind b (Some b) (insertBefore b b ?s2)"
  have ce: "chainEnd ?s1 b = Some b"
    by (subst chainEnd.simps) (simp add: insertBefore_simps assms)
  have rec: "insertBehind b b ?s2 = Some ?s3"
    by (rule insertBehind_end) (simp add: insertBefore_simps assms)
  show ?thesis
    by (subst insertBehind.simps) (simp add: Let_def insertBefore_simps assms ce rec)
qed

lemma insertBehind_successor_again:
  assumes "alloc s a" and "alloc s b" and "a \<noteq> b"
    and "behind_of s a = Some b" and "behind_of s b = None"
  shows "\<exists>s'. insertBehind a b s = Some s' \<and> behind_of s' a = Some b \<and>
           before_of s' b = Some b \<and> behind_of s' b = Some b"
  using insertBehind_successor_state [OF assms] assms by (simp add: insertBefore_simps)

text \<open>
  The same holds for an item further behind: with \<open>a\<close>, \<open>x\<close>, \<open>b\<close> in a row,
  \<open>a.insertBehind(b)\<close> leaves \<open>x.behind\<close> on \<open>b\<close> while \<open>b.before\<close> is \<open>a\<close>.
\<close>

lemma insertBehind_later_successor:
  assumes "alloc s a" and "alloc s x" and "alloc s b" and "distinct [a, x, b]"
    and "behind_of s a = Some x" and "behind_of s x = Some b" and "behind_of s b = None"
  shows "\<exists>s'. insertBehind a b s = Some s' \<and> behind_of s' a = Some b \<and>
           before_of s' b = Some a \<and> behind_of s' x = Some b"
proof -
  let ?s1 = "insertBefore b a s"
  let ?s2 = "insertBefore x b ?s1"
  let ?s3 = "set_behind b (Some x) (insertBefore x b ?s2)"
  have ce: "chainEnd ?s1 b = Some b"
    by (subst chainEnd.simps) (simp add: insertBefore_simps assms)
  have rec: "insertBehind b x ?s2 = Some ?s3"
    by (rule insertBehind_end) (simp add: insertBefore_simps assms)
  have "insertBehind a b s = Some (set_behind a (Some b) ?s3)"
    by (subst insertBehind.simps) (simp add: Let_def insertBefore_simps assms ce rec)
  then show ?thesis using assms by (auto simp: insertBefore_simps)
qed

text \<open>
  C3 as the claim words it, for every \<open>this\<close> and every \<open>item\<close>, fails on the list
  built by \<open>new LinkedList([1, 2])\<close>: there the second item is the successor of the
  head, and \<open>head.insertBehind(head.behind)\<close> returns with the \<open>before\<close> link of the
  inserted item on the item itself, not on the head.
\<close>

theorem insertBehind_successor_counterexample:
  "LinkedList [1, 2] = Some list_12 \<and>
   behind_of list_12 0 = Some 1 \<and> before_of list_12 1 = Some 0 \<and> behind_of list_12 1 = None \<and>
   insertBehind 0 1 list_12 = Some list_12_again \<and>
   behind_of list_12_again 0 = Some 1 \<and>
   before_of list_12_again 1 = Some 1 \<and> before_of list_12_again 1 \<noteq> Some 0"
proof -
  have a: "behind_of list_12 0 = Some 1" "before_of list_12 1 = Some 0" "behind_of list_12 1 = None"
    "alloc list_12 0" "alloc list_12 1"
    by (simp_all add: list_12_def behind_of_def before_of_def alloc_def)
  have b: "behind_of list_12_again 0 = Some 1" "before_of list_12_again 1 = Some 1"
    by (simp_all add: list_12_again_def behind_of_def before_of_def)
  have n: "(0::nat) \<noteq> 1" by simp
  have "insertBehind 0 1 list_12 =
      Some (set_behind 0 (Some 1) (set_behind 1 (Some 1)
        (insertBefore 1 1 (insertBefore 1 1 (insertBefore 1 0 list_12)))))"
    by (rule insertBehind_successor_state [OF a(4) a(5) n a(1) a(3)])
  also have "\<dots> = Some list_12_again"
    by (simp add: list_12_def list_12_again_def eval_defs fun_eq_iff)
  finally show ?thesis using a b LinkedList_12 by simp
qed

text \<open>
  C4 (\<open>unlink()\<close> reconnects the neighbours of the item: the predecessor's \<open>behind\<close>
  becomes the item's \<open>behind\<close>, the successor's \<open>before\<close> becomes the item's \<open>before\<close>;
  the item keeps its own two links, and \<open>unlink(true)\<close> clears them). The neighbours
  are objects of the store; with \<open>unlink(true)\<close> they are other than the item itself,
  whose links are cleared.
\<close>

theorem unlink_reconnects_neighbours:
  assumes "\<forall>b. before_of s this = Some b \<longrightarrow> alloc s b \<and> (u \<longrightarrow> b \<noteq> this)"
    and "\<forall>a. behind_of s this = Some a \<longrightarrow> alloc s a \<and> (u \<longrightarrow> a \<noteq> this)"
  shows "(\<forall>b. before_of s this = Some b \<longrightarrow> behind_of (unlink this u s) b = behind_of s this) \<and>
         (\<forall>a. behind_of s this = Some a \<longrightarrow> before_of (unlink this u s) a = before_of s this) \<and>
         before_of (unlink this u s) this = (if u then None else before_of s this) \<and>
         behind_of (unlink this u s) this = (if u then None else behind_of s this)"
  using assms by (auto simp: unlink_simps)

theorem unlink_reconnects_neighbours_witness:
  "before_of list_123 1 = Some 0 \<and> behind_of list_123 1 = Some 2 \<and>
   alloc list_123 0 \<and> alloc list_123 2 \<and>
   behind_of (unlink 1 False list_123) 0 = Some 2 \<and>
   before_of (unlink 1 False list_123) 2 = Some 0 \<and>
   before_of (unlink 1 False list_123) 1 = Some 0 \<and>
   behind_of (unlink 1 False list_123) 1 = Some 2 \<and>
   behind_of (unlink 1 True list_123) 0 = Some 2 \<and>
   before_of (unlink 1 True list_123) 2 = Some 0 \<and>
   before_of (unlink 1 True list_123) 1 = None \<and>
   behind_of (unlink 1 True list_123) 1 = None"
proof -
  have l: "before_of list_123 1 = Some 0" "behind_of list_123 1 = Some 2"
    "alloc list_123 0" "alloc list_123 2"
    by (simp_all add: list_123_def before_of_def behind_of_def alloc_def)
  have h1: "\<forall>b. before_of list_123 1 = Some b \<longrightarrow> alloc list_123 b \<and> (u \<longrightarrow> b \<noteq> 1)"
    and h2: "\<forall>a. behind_of list_123 1 = Some a \<longrightarrow> alloc list_123 a \<and> (u \<longrightarrow> a \<noteq> 1)"
    for u
    using l by auto
  show ?thesis
    using l unlink_reconnects_neighbours [OF h1 h2, of False]
      unlink_reconnects_neighbours [OF h1 h2, of True]
    by simp
qed

text \<open>
  C5 (the first \<open>unlink\<close> of an item with a cleanup function calls the function exactly
  once and clears the field; a second \<open>unlink\<close> of the item calls nothing; with the
  list's cleanup function the length is decremented once only). \<open>calls\<close> is the log of
  callback invocations. The last part says it for any later state \<open>t\<close> in which the field
  is still cleared.
\<close>

theorem unlink_calls_cleanup_once:
  "cleanup_of s n = Some c \<Longrightarrow>
     (let s1 = unlink n u s; s2 = unlink n u' s1 in
        calls s1 = calls s @ [(c, n)] \<and>
        cleanup_of s1 n = None \<and>
        calls s2 = calls s1 \<and>
        (c = ListCleanup \<longrightarrow> length_l s1 = length_l s - 1 \<and> length_l s2 = length_l s - 1)) \<and>
     (\<forall>t. cleanup_of t n = None \<longrightarrow>
        calls (unlink n u' t) = calls t \<and> length_l (unlink n u' t) = length_l t)"
  by (simp add: Let_def unlink_simps)

theorem unlink_calls_cleanup_once_witness:
  "cleanup_of list_123 1 = Some ListCleanup \<and>
   (let s1 = unlink 1 False list_123; s2 = unlink 1 True s1 in
      calls s1 = calls list_123 @ [(ListCleanup, 1)] \<and> cleanup_of s1 1 = None \<and>
      calls s2 = calls s1 \<and>
      length_l s1 = length_l list_123 - 1 \<and> length_l s2 = length_l list_123 - 1)"
proof -
  have h: "cleanup_of list_123 1 = Some ListCleanup"
    by (simp add: list_123_def cleanup_of_def)
  show ?thesis
    using h unlink_calls_cleanup_once [OF h, of False True] unfolding Let_def by blast
qed

text \<open>
  C6 (the length never becomes negative, also when a retained item is unlinked after
  \<open>clear()\<close>): the code does not keep this. \<open>clear()\<close> without unchaining leaves the
  cleanup function on the orphaned items, so \<open>unlink()\<close> on the former head of the one-element list
  built by \<open>new LinkedList([1])\<close> decrements the length of the cleared list to \<open>-1\<close>.
\<close>

theorem clear_then_unlink_negative_length:
  "\<exists>s s1. LinkedList [1::int] = Some s \<and> head s = Some 0 \<and> cleanup_of s 0 = Some ListCleanup \<and>
      clear False s = Some s1 \<and> length_l s1 = 0 \<and> length_l (unlink 0 False s1) = - 1"
  by (simp add: LinkedList_def push1_def new_item_def empty_state_def clear_def unlink_simps
      cleanup_of_def)

text \<open>
  The sibling path: \<open>clear(true)\<close> unlinks every item, which removes its cleanup
  function, and a later \<open>unlink\<close> of a former item leaves the length at zero.
\<close>

lemma clear_unchain_then_unlink_length:
  assumes "llist s ns vs" and "r \<in> set ns"
  shows "\<exists>s1. clear True s = Some s1 \<and> length_l s1 = 0 \<and> length_l (unlink r u s1) = 0"
proof -
  from assms(1) have "wf_list s ns" by (simp add: llist_def)
  from clear_loop_wf [OF this] assms(2) obtain s0 where c: "clear_loop s = Some s0"
    and l: "cleanup_of s0 r = None"
    by blast
  then show ?thesis by (simp add: clear_def unlink_simps)
qed

text \<open>
  C7 (\<open>remove\<close> unlinks the first item holding the value and returns whether there was
  one, leaving the list unchanged when there is none; \<open>removeAllOccurrences\<close> unlinks
  every item holding the value in one scan): \<open>llist s ns vs\<close> says that the list of the
  state \<open>s\<close> consists of the items \<open>ns\<close>, holding the values \<open>vs\<close>.
\<close>

theorem remove_and_removeAllOccurrences:
  assumes "llist s ns vs"
  shows "\<exists>s1 s2.
           remove v s = Some (v \<in> set vs, s1) \<and>
           llist s1 (del1 (\<lambda>r. value_of s r = Some v) ns) (remove1 v vs) \<and>
           (v \<notin> set vs \<longrightarrow> s1 = s) \<and>
           removeAllOccurrences v s = Some (v \<in> set vs, s2) \<and>
           llist s2 (filter (\<lambda>r. value_of s r \<noteq> Some v) ns) (removeAll v vs)"
  using llist_remove [OF assms, of v] llist_removeAllOccurrences [OF assms, of v]
  by (auto simp: removeAll_filter_not_eq eq_commute [of v])

theorem remove_and_removeAllOccurrences_witness:
  "llist list_3453 [0, 1, 2, 3] [3, 4, 5, 3] \<and>
   (\<exists>s1 s2. remove 3 list_3453 = Some (True, s1) \<and> llist s1 [1, 2, 3] [4, 5, 3] \<and>
            removeAllOccurrences 3 list_3453 = Some (True, s2) \<and> llist s2 [1, 2] [4, 5])"
proof -
  have v: "value_of list_3453 0 = Some 3" "value_of list_3453 1 = Some 4"
    "value_of list_3453 2 = Some 5" "value_of list_3453 3 = Some 3"
    "value_of list_3453 (Suc 0) = Some 4"
    by (simp_all add: value_of_def list_3453_def)
  from remove_and_removeAllOccurrences [OF llist_list_3453, of 3] show ?thesis
    using llist_list_3453 by (simp add: v)
qed

text \<open>
  C8 (\<open>getItemByIndex\<close>: nothing on an empty list, the item at position \<open>i\<close> for
  \<open>0 \<le> i < length\<close>, the item at position \<open>length + i\<close> for \<open>-length \<le> i < 0\<close>, nothing
  for an index out of range; index 0 is the head and index -1 the tail).
\<close>

theorem getItemByIndex_resolves:
  assumes "wf_list s ns"
  shows "getItemByIndex i s =
           (if ns = [] then None
            else if 0 \<le> i \<and> i < int (length ns) then Some (ns ! nat i)
            else if i < 0 \<and> - int (length ns) \<le> i then Some (ns ! nat (int (length ns) + i))
            else None) \<and>
         (ns \<noteq> [] \<longrightarrow> getItemByIndex 0 s = head s \<and> getItemByIndex (- 1) s = tail s)"
proof -
  have "getItemByIndex (- 1) s = tail s" if "ns \<noteq> []"
  proof -
    from that have p: "0 < length ns" by simp
    then have "nat (int (length ns) + - 1) = length ns - 1" by linarith
    moreover have "tail s = Some (ns ! (length ns - 1))"
      using that assms by (simp add: wf_list_def last_or_eq last_conv_nth)
    moreover have "- int (length ns) \<le> - 1" using p by linarith
    ultimately show ?thesis
      using that wf_list_getItemByIndex [OF assms, of "- 1"] by simp
  qed
  moreover have "getItemByIndex 0 s = head s" if "ns \<noteq> []"
    using that assms wf_list_getItemByIndex [OF assms, of 0]
    by (simp add: wf_list_def hd_or_eq hd_conv_nth)
  ultimately show ?thesis using wf_list_getItemByIndex [OF assms, of i] by blast
qed

theorem getItemByIndex_resolves_witness:
  "wf_list list_123 [0, 1, 2] \<and>
   getItemByIndex 0 list_123 = Some 0 \<and> getItemByIndex 2 list_123 = Some 2 \<and>
   getItemByIndex 3 list_123 = None \<and> getItemByIndex (- 1) list_123 = Some 2 \<and>
   getItemByIndex (- 3) list_123 = Some 0 \<and> getItemByIndex (- 4) list_123 = None"
proof -
  have w: "wf_list list_123 [0, 1, 2]" using llist_list_123 by (simp add: llist_def)
  show ?thesis
    using w getItemByIndex_resolves [OF w, of 0] getItemByIndex_resolves [OF w, of 2]
      getItemByIndex_resolves [OF w, of 3] getItemByIndex_resolves [OF w, of "- 1"]
      getItemByIndex_resolves [OF w, of "- 3"] getItemByIndex_resolves [OF w, of "- 4"]
    by simp
qed

text \<open>
  C9 (\<open>clear()\<close> resets \<open>head\<close>, \<open>tail\<close> and \<open>length\<close> and leaves the links of the
  former items as they were; \<open>clear(true)\<close> also clears both links of every former
  item; after either, \<open>push(x)\<close> gives a list of one item, which is head and tail
  and holds \<open>x\<close>).
\<close>

theorem clear_resets:
  assumes "llist s ns vs"
  shows "\<exists>s0 s1.
           clear False s = Some s0 \<and> head s0 = None \<and> tail s0 = None \<and> length_l s0 = 0 \<and>
           (\<forall>r. before_of s0 r = before_of s r \<and> behind_of s0 r = behind_of s r) \<and>
           clear True s = Some s1 \<and> head s1 = None \<and> tail s1 = None \<and> length_l s1 = 0 \<and>
           (\<forall>r\<in>set ns. before_of s1 r = None \<and> behind_of s1 r = None) \<and>
           (\<forall>c\<in>{s0, s1}. \<exists>s2 r. push [x] c = Some (1, s2) \<and> head s2 = Some r \<and>
               tail s2 = Some r \<and> value_of s2 r = Some x \<and> length_l s2 = 1)"
proof -
  from llist_clear [OF assms, of False] obtain s0 where c0: "clear False s = Some s0"
    and l0: "llist s0 [] []"
    and k0: "\<forall>r. before_of s0 r = before_of s r \<and> behind_of s0 r = behind_of s r"
    by auto
  from llist_clear [OF assms, of True] obtain s1 where c1: "clear True s = Some s1"
    and l1: "llist s1 [] []"
    and k1: "\<forall>r\<in>set ns. before_of s1 r = None \<and> behind_of s1 r = None"
    by auto
  have e: "head c = None \<and> tail c = None \<and> length_l c = 0" if "llist c [] []" for c :: "'a state"
    using that by (simp add: llist_def wf_list_def)
  have p: "\<exists>s2 r. push [x] c = Some (1, s2) \<and> head s2 = Some r \<and>
               tail s2 = Some r \<and> value_of s2 r = Some x \<and> length_l s2 = 1"
    if "llist c [] []" for c :: "'a state"
    using llist_push [OF that, of "[x]"] by (auto simp: llist_def wf_list_def)
  show ?thesis
    using c0 c1 k0 k1 e [OF l0] e [OF l1] p [OF l0] p [OF l1] by auto
qed

theorem clear_resets_witness:
  "llist list_123 [0, 1, 2] [1, 2, 3] \<and>
   (\<exists>s0 s1.
      clear False list_123 = Some s0 \<and> length_l s0 = 0 \<and> behind_of s0 0 = Some 1 \<and>
      clear True list_123 = Some s1 \<and> length_l s1 = 0 \<and> behind_of s1 0 = None \<and>
      (\<exists>s2 r. push [7] s1 = Some (1, s2) \<and> head s2 = Some r \<and> tail s2 = Some r \<and>
         value_of s2 r = Some 7))"
proof -
  have b: "behind_of list_123 0 = Some 1" by (simp add: behind_of_def list_123_def)
  from clear_resets [OF llist_list_123, of 7] obtain s0 s1 where
    "clear False list_123 = Some s0" "length_l s0 = 0"
    "\<forall>r. before_of s0 r = before_of list_123 r \<and> behind_of s0 r = behind_of list_123 r"
    "clear True list_123 = Some s1" "length_l s1 = 0"
    "\<forall>r\<in>set [0, 1, 2]. before_of s1 r = None \<and> behind_of s1 r = None"
    "\<forall>c\<in>{s0, s1}. \<exists>s2 r. push [7] c = Some (1, s2) \<and> head s2 = Some r \<and>
               tail s2 = Some r \<and> value_of s2 r = Some 7 \<and> length_l s2 = 1"
    by blast
  then show ?thesis using llist_list_123 b by auto
qed

text \<open>
  C10 (\<open>unshift(v1, ..., vk)\<close> prepends the values one at a time, so they end up in
  reverse order in front of the old contents, and returns the new length).
\<close>

theorem unshift_reverses_arguments:
  assumes "llist s ns ws"
  shows "\<exists>s'. unshift vs s = Some (int (length ws) + int (length vs), s') \<and>
           llist s' (rev [nextRef s ..< nextRef s + length vs] @ ns) (rev vs @ ws)"
  using llist_unshift [OF assms, of vs] by simp

theorem unshift_reverses_arguments_witness:
  "llist list_123 [0, 1, 2] [1, 2, 3] \<and>
   (\<exists>s'. unshift [7, 8] list_123 = Some (5, s') \<and> llist s' [4, 3, 0, 1, 2] [8, 7, 1, 2, 3])"
proof -
  have n: "nextRef list_123 = 3" by (simp add: list_123_def)
  have u: "[3 ..< 5] = [3, 4::nat]" by (simp add: upt_rec)
  from unshift_reverses_arguments [OF llist_list_123, of "[7, 8]"] show ?thesis
    using llist_list_123 by (simp add: n u)
qed

end
